theory Spec2Isabelle
  imports Main "HOL-Library.Word"
begin

unbundle bit_operations_syntax

section \<open>Basic types\<close>

text \<open>
  Every failure of the allocator surfaces as an \<open>InternalException\<close> carrying a message.

  Modelled from the spec: the \<open>D_ASSERT\<close> macro is declared outside the files at hand.
  The specification treats the asserted conditions as checked invariants whose violation is
  a fatal internal error, so a failed \<open>D_ASSERT\<close> is the error value
  \<open>InternalException ''D_ASSERT''\<close>.
\<close>

datatype error = InternalException string

definition assertion_failed :: error where
  "assertion_failed = InternalException ''D_ASSERT''"

text \<open>
  \<open>validity_t\<close> is a 64-bit word.  \<open>idx_t\<close> is an unsigned 64-bit integer; it is modelled
  as a natural number, with the wrap-around at \<open>2 ^ 64\<close> written out in the constructor, the
  one place where the source's arithmetic leaves the range.  \<open>uint32_t\<close> results are
  reduced modulo \<open>2 ^ 32\<close>.
\<close>

type_synonym validity_t = "64 word"

definition add64 :: "nat \<Rightarrow> nat \<Rightarrow> nat" where
  "add64 a b = (a + b) mod 2 ^ 64"

definition sub64 :: "nat \<Rightarrow> nat \<Rightarrow> nat" where
  "sub64 a b = (a + 2 ^ 64 - b mod 2 ^ 64) mod 2 ^ 64"

definition mul64 :: "nat \<Rightarrow> nat \<Rightarrow> nat" where
  "mul64 a b = (a * b) mod 2 ^ 64"

definition uint32 :: "nat \<Rightarrow> nat" where
  "uint32 n = n mod 2 ^ 32"

definition sub32 :: "nat \<Rightarrow> nat \<Rightarrow> nat" where
  "sub32 a b = (a + 2 ^ 32 - b mod 2 ^ 32) mod 2 ^ 32"

text \<open>
  Modelled from the spec: \<open>Storage::BLOCK_SIZE\<close> is declared outside the files at hand; the
  specification's scenarios take it to be 262144.  The constructor below takes the block
  size as an argument, so that its loop can be examined at other block sizes as well.
\<close>

definition BLOCK_SIZE :: nat where
  "BLOCK_SIZE = 262144"

section \<open>Bit-scan tables and ladders\<close>

text \<open>
  Modelled from the spec: the tables \<open>BASE\<close> and \<open>SHIFT\<close> are declared in the allocator's
  header, which is not among the files at hand.  \<open>SHIFT = [32, 16, 8, 4, 2, 1]\<close> and
  \<open>BASE[i]\<close> isolates the lower half of every sub-word at level \<open>i\<close>.
\<close>

definition SHIFT :: "nat \<Rightarrow> nat" where
  "SHIFT i = [32, 16, 8, 4, 2, 1] ! i"

definition BASE :: "nat \<Rightarrow> validity_t" where
  "BASE i = [0x00000000FFFFFFFF, 0x0000FFFF0000FFFF, 0x00FF00FF00FF00FF,
             0x0F0F0F0F0F0F0F0F, 0x3333333333333333, 0x5555555555555555] ! i"

text \<open>
  One iteration of the loop in \<open>GetOffset\<close> that finds the rightmost set bit: the state
  is the pair \<open>(entry, first_valid_bit)\<close>.
\<close>

definition rightmost_step :: "nat \<Rightarrow> validity_t \<times> nat \<Rightarrow> validity_t \<times> nat" where
  "rightmost_step i st = (case st of (entry, first_valid_bit) \<Rightarrow>
     if entry AND BASE i \<noteq> 0 then (entry AND BASE i, first_valid_bit)
     else (drop_bit (SHIFT i) entry, first_valid_bit + SHIFT i))"

definition rightmost_ladder :: "validity_t \<Rightarrow> validity_t \<times> nat" where
  "rightmost_ladder entry = foldl (\<lambda>st i. rightmost_step i st) (entry, 0) [0..<6]"

definition find_rightmost_set :: "validity_t \<Rightarrow> nat" where
  "find_rightmost_set entry = snd (rightmost_ladder entry)"

text \<open>
  One iteration of the loop in \<open>GetMaxOffset\<close> that finds the leftmost set bit of the
  inverted entry.
\<close>

definition leftmost_step :: "nat \<Rightarrow> validity_t \<times> nat \<Rightarrow> validity_t \<times> nat" where
  "leftmost_step level st = (case st of (entry_inv, first_valid_bit) \<Rightarrow>
     if entry_inv AND NOT (BASE level) \<noteq> 0
     then (drop_bit (SHIFT level) entry_inv, first_valid_bit + SHIFT level)
     else (entry_inv AND BASE level, first_valid_bit))"

definition leftmost_ladder :: "validity_t \<Rightarrow> validity_t \<times> nat" where
  "leftmost_ladder entry_inv = foldl (\<lambda>st level. leftmost_step level st) (entry_inv, 0) [0..<6]"

text \<open>Specification side: the index of the rightmost and of the leftmost set bit.\<close>

definition lowest_set :: "validity_t \<Rightarrow> nat" where
  "lowest_set x = (LEAST n. bit x n)"

definition highest_set :: "validity_t \<Rightarrow> nat" where
  "highest_set x = (GREATEST n. bit x n)"

definition below :: "nat \<Rightarrow> validity_t \<Rightarrow> bool" where
  "below w x \<longleftrightarrow> take_bit w x = x"

section \<open>Validity bitmap view\<close>

text \<open>
  Modelled from the spec: the class \<open>ValidityMask\<close> is declared outside the files at hand.
  It is a view of the head of a buffer as an array of \<open>validity_t\<close>: row \<open>i\<close> is bit
  \<open>i mod 64\<close> of entry \<open>i div 64\<close>.  \<open>SetAllValid count\<close> sets the bits of the rows below
  \<open>count\<close> and clears the rest.
\<close>

type_synonym validity_data = "nat \<Rightarrow> validity_t"

definition RowIsValid :: "validity_data \<Rightarrow> nat \<Rightarrow> bool" where
  "RowIsValid data row = bit (data (row div 64)) (row mod 64)"

definition SetValid :: "validity_data \<Rightarrow> nat \<Rightarrow> validity_data" where
  "SetValid data row = data(row div 64 := set_bit (row mod 64) (data (row div 64)))"

definition SetInvalid :: "validity_data \<Rightarrow> nat \<Rightarrow> validity_data" where
  "SetInvalid data row = data(row div 64 := unset_bit (row mod 64) (data (row div 64)))"

definition SetAllValid :: "nat \<Rightarrow> validity_data" where
  "SetAllValid count = (\<lambda>entry_idx. mask (count - 64 * entry_idx))"

section \<open>Index pointers\<close>

text \<open>
  Modelled from the spec: the class \<open>IndexPointer\<close> is declared outside the files at hand.
  A pointer is a 64-bit handle packing a 32-bit buffer id (low half) and a 32-bit offset
  (high half); the all-zero handle is the null pointer.
\<close>

type_synonym IndexPointer = "64 word"

definition IndexPointer :: "nat \<Rightarrow> nat \<Rightarrow> IndexPointer" where
  "IndexPointer buffer_id offset = push_bit 32 (word_of_nat (uint32 offset)) + word_of_nat (uint32 buffer_id)"

definition GetBufferId :: "IndexPointer \<Rightarrow> nat" where
  "GetBufferId ptr = unat (take_bit 32 ptr)"

definition PointerGetOffset :: "IndexPointer \<Rightarrow> nat" where
  "PointerGetOffset ptr = unat (drop_bit 32 ptr)"

definition null_pointer :: IndexPointer where
  "null_pointer = 0"

section \<open>The constructor's loop\<close>

text \<open>
  The \<open>while\<close> loop of the constructor.  \<open>remaining_bytes\<close> is an unsigned difference and
  wraps around when \<open>byte_count\<close> has passed the block size.  A division by zero is not
  a result of the source (it is undefined there); the model reports it as an error.  The
  loop is a partial function: \<open>None\<close> stands for not returning.
\<close>

partial_function (option) segments_loop ::
  "nat \<Rightarrow> nat \<Rightarrow> nat \<Rightarrow> nat \<Rightarrow> nat \<Rightarrow> (error + nat \<times> nat) option" where
  "segments_loop block_size segment_size bitmask_count byte_count available =
     (if byte_count < block_size then
        if bitmask_count \<noteq> 0 \<and> available = 0 \<or> segment_size = 0
        then Some (Inl (InternalException ''division by zero''))
        else
          let grow = (bitmask_count = 0 \<or> mul64 bitmask_count 64 mod available = 0);
              bitmask_count' = (if grow then add64 bitmask_count 1 else bitmask_count);
              byte_count' = (if grow then add64 byte_count 8 else byte_count);
              remaining_bytes = sub64 block_size byte_count';
              remaining_segments = min (remaining_bytes div segment_size) 64
          in if remaining_segments = 0 then Some (Inr (bitmask_count', available))
             else segments_loop block_size segment_size bitmask_count'
                    (add64 byte_count' (mul64 remaining_segments segment_size))
                    (add64 available remaining_segments)
      else Some (Inr (bitmask_count, available)))"

section \<open>Buffers and the allocator\<close>

text \<open>
  Modelled from the spec: the class \<open>FixedSizeBuffer\<close> is declared outside the files at
  hand.  A buffer holds its live segment count, its vacuum flag, its on-disk location and
  the block itself: the validity entries at the head of the block, and the bytes of the
  segment region that follows them (addressed from the start of that region).  Pinning and
  paging are transparent.
\<close>

record FixedSizeBuffer =
  segment_count :: nat
  vacuum :: bool
  validity :: validity_data
  payload :: "nat \<Rightarrow> 8 word"
  block_pointer :: nat
  allocation_size :: nat

record FixedSizeAllocator =
  segment_size :: nat
  bitmask_count :: nat
  bitmask_offset :: nat
  available_segments_per_buffer :: nat
  total_segment_count :: nat
  buffers :: "nat \<rightharpoonup> FixedSizeBuffer"
  buffers_with_free_space :: "nat set"
  vacuum_buffers :: "nat set"

subsection \<open>Constructor\<close>

definition FixedSizeAllocator_ctor :: "nat \<Rightarrow> nat \<Rightarrow> (error + FixedSizeAllocator) option" where
  "FixedSizeAllocator_ctor block_size segment_size' =
     (if segment_size' > sub64 block_size 8
      then Some (Inl (InternalException ''The maximum segment size of fixed-size allocators is exceeded''))
      else case segments_loop block_size segment_size' 0 0 0 of
             None \<Rightarrow> None
           | Some (Inl e) \<Rightarrow> Some (Inl e)
           | Some (Inr (bitmask_count', available)) \<Rightarrow>
               Some (Inr \<lparr>segment_size = segment_size',
                          bitmask_count = bitmask_count',
                          bitmask_offset = mul64 bitmask_count' 8,
                          available_segments_per_buffer = available,
                          total_segment_count = 0,
                          buffers = Map.empty,
                          buffers_with_free_space = {},
                          vacuum_buffers = {}\<rparr>))"

subsection \<open>Buffer ids\<close>

text \<open>\<open>GetAvailableBufferId\<close>: start at the number of buffers and step down while the id is taken.\<close>

fun available_id_loop :: "(nat \<rightharpoonup> FixedSizeBuffer) \<Rightarrow> nat \<Rightarrow> error + nat" where
  "available_id_loop bufs buffer_id =
     (if bufs buffer_id \<noteq> None then
        if buffer_id > 0 then available_id_loop bufs (buffer_id - 1)
        else Inl assertion_failed
      else Inr buffer_id)"

definition GetAvailableBufferId :: "FixedSizeAllocator \<Rightarrow> error + nat" where
  "GetAvailableBufferId a = available_id_loop (buffers a) (card (dom (buffers a)))"

text \<open>
  \<open>GetUpperBoundBufferId\<close> iterates over the buffers; the ids are visited here in ascending
  order.  \<open>buffer.first + 1\<close> is an \<open>idx_t\<close> sum and wraps at \<open>2^64\<close>; as long as no id
  is \<open>2^64 - 1\<close> the result does not depend on the order (\<open>upper_bound_loop_any_order\<close>).
\<close>

definition upper_bound_step :: "nat \<Rightarrow> nat \<Rightarrow> nat" where
  "upper_bound_step buffer_id upper_bound_id =
     (if buffer_id \<ge> upper_bound_id then add64 buffer_id 1 else upper_bound_id)"

definition GetUpperBoundBufferId :: "FixedSizeAllocator \<Rightarrow> nat" where
  "GetUpperBoundBufferId a = fold upper_bound_step (sorted_list_of_set (dom (buffers a))) 0"

subsection \<open>\<open>GetOffset\<close> and \<open>New\<close>\<close>

text \<open>The slow path of \<open>GetOffset\<close>: the loop over the entries of the bitmask.\<close>

function scan_entries :: "nat \<Rightarrow> validity_data \<Rightarrow> nat \<Rightarrow> error + validity_data \<times> nat" where
  "scan_entries bitmask_count' data entry_idx =
     (if entry_idx < bitmask_count' then
        if data entry_idx = 0 then scan_entries bitmask_count' data (entry_idx + 1)
        else
          case rightmost_ladder (data entry_idx) of (entry, first_valid_bit) \<Rightarrow>
            if entry = 0 then Inl assertion_failed
            else
              let prev_bits = entry_idx * 8 * 8 in
              if \<not> RowIsValid data (prev_bits + first_valid_bit) then Inl assertion_failed
              else Inr (SetInvalid data (prev_bits + first_valid_bit), uint32 (prev_bits + first_valid_bit))
      else Inl (InternalException ''Invalid bitmask for FixedSizeAllocator''))"
  by pat_completeness auto
termination
  by (relation "measure (\<lambda>(n, data, entry_idx). n - entry_idx)") auto

definition GetOffset :: "FixedSizeAllocator \<Rightarrow> validity_data \<Rightarrow> nat \<Rightarrow> error + validity_data \<times> nat" where
  "GetOffset a data segment_count' =
     (if RowIsValid data segment_count'
      then Inr (SetInvalid data segment_count', uint32 segment_count')
      else scan_entries (bitmask_count a) data 0)"

text \<open>\<open>std::unordered_map::insert\<close> leaves an existing entry as it is.\<close>

definition map_insert :: "(nat \<rightharpoonup> 'v) \<Rightarrow> nat \<Rightarrow> 'v \<Rightarrow> (nat \<rightharpoonup> 'v)" where
  "map_insert m k v = (if m k = None then m(k \<mapsto> v) else m)"

text \<open>
  The first half of \<open>New\<close>: with no buffer that has free space, add a buffer with all
  segments free.  A fresh block's memory is taken to be zeroed.
\<close>

definition fresh_buffer :: FixedSizeBuffer where
  "fresh_buffer = \<lparr>segment_count = 0, vacuum = False, validity = (\<lambda>_. 0),
                    payload = (\<lambda>_. 0), block_pointer = 0, allocation_size = 0\<rparr>"

definition add_buffer :: "FixedSizeAllocator \<Rightarrow> error + FixedSizeAllocator" where
  "add_buffer a =
     (case GetAvailableBufferId a of
        Inl e \<Rightarrow> Inl e
      | Inr buffer_id \<Rightarrow>
          let bufs = map_insert (buffers a) buffer_id fresh_buffer in
          case bufs buffer_id of
            None \<Rightarrow> Inl assertion_failed
          | Some buffer \<Rightarrow>
              Inr (a\<lparr>buffers := bufs(buffer_id \<mapsto>
                         buffer\<lparr>validity := SetAllValid (available_segments_per_buffer a)\<rparr>),
                      buffers_with_free_space := insert buffer_id (buffers_with_free_space a)\<rparr>))"

text \<open>
  \<open>New\<close>.  The element \<open>*buffers_with_free_space.begin()\<close> is taken to be the minimum of the
  set, the choice the specification names as the reference.
\<close>

definition New :: "FixedSizeAllocator \<Rightarrow> error + FixedSizeAllocator \<times> IndexPointer" where
  "New a =
     (case (if buffers_with_free_space a = {} then add_buffer a else Inr a) of
        Inl e \<Rightarrow> Inl e
      | Inr a1 \<Rightarrow>
          if buffers_with_free_space a1 = {} then Inl assertion_failed
          else
            let buffer_id = uint32 (Min (buffers_with_free_space a1)) in
            case buffers a1 buffer_id of
              None \<Rightarrow> Inl assertion_failed
            | Some buffer \<Rightarrow>
                case GetOffset a1 (validity buffer) (segment_count buffer) of
                  Inl e \<Rightarrow> Inl e
                | Inr (data, offset) \<Rightarrow>
                    let buffer' = buffer\<lparr>validity := data, segment_count := segment_count buffer + 1\<rparr>;
                        a2 = a1\<lparr>total_segment_count := total_segment_count a1 + 1,
                                buffers := (buffers a1)(buffer_id \<mapsto> buffer')\<rparr>;
                        a3 = (if segment_count buffer' = available_segments_per_buffer a2
                              then a2\<lparr>buffers_with_free_space := buffers_with_free_space a2 - {buffer_id}\<rparr>
                              else a2)
                    in Inr (a3, IndexPointer buffer_id offset))"

subsection \<open>\<open>Free\<close>\<close>

definition Free :: "FixedSizeAllocator \<Rightarrow> IndexPointer \<Rightarrow> error + FixedSizeAllocator" where
  "Free a ptr =
     (let buffer_id = GetBufferId ptr; offset = PointerGetOffset ptr in
      case buffers a buffer_id of
        None \<Rightarrow> Inl assertion_failed
      | Some buffer \<Rightarrow>
          if RowIsValid (validity buffer) offset then Inl assertion_failed
          else if \<not> total_segment_count a > 0 then Inl assertion_failed
          else if \<not> segment_count buffer > 0 then Inl assertion_failed
          else Inr (a\<lparr>buffers_with_free_space := insert buffer_id (buffers_with_free_space a),
                       total_segment_count := total_segment_count a - 1,
                       buffers := (buffers a)(buffer_id \<mapsto>
                          buffer\<lparr>validity := SetValid (validity buffer) offset,
                                 segment_count := segment_count buffer - 1\<rparr>)\<rparr>))"

definition first_valid :: "validity_data \<Rightarrow> nat" where
  "first_valid data = (LEAST row. RowIsValid data row)"

fun allocate_n :: "nat \<Rightarrow> FixedSizeAllocator \<Rightarrow> error + FixedSizeAllocator \<times> IndexPointer list" where
  "allocate_n 0 a = Inr (a, [])"
| "allocate_n (Suc n) a =
     (case New a of
        Inl e \<Rightarrow> Inl e
      | Inr (a', ptr) \<Rightarrow>
          (case allocate_n n a' of
             Inl e \<Rightarrow> Inl e
           | Inr (a'', ptrs) \<Rightarrow> Inr (a'', ptr # ptrs)))"

definition free_then_new_scenario ::
  "nat \<Rightarrow> (error + (nat \<times> nat) list \<times> nat \<times> (nat \<times> nat) \<times> (nat \<times> nat)) option" where
  "free_then_new_scenario s =
     (case FixedSizeAllocator_ctor BLOCK_SIZE s of
        None \<Rightarrow> None
      | Some (Inl e) \<Rightarrow> Some (Inl e)
      | Some (Inr a0) \<Rightarrow> Some
          (case allocate_n 10 a0 of
             Inl e \<Rightarrow> Inl e
           | Inr (a10, ptrs) \<Rightarrow>
               (case Free a10 (ptrs ! 4) of
                  Inl e \<Rightarrow> Inl e
                | Inr a11 \<Rightarrow>
                    (case New a11 of
                       Inl e \<Rightarrow> Inl e
                     | Inr (a12, p) \<Rightarrow>
                         (case New a12 of
                            Inl e \<Rightarrow> Inl e
                          | Inr (a13, q) \<Rightarrow>
                              Inr (map (\<lambda>ptr. (GetBufferId ptr, PointerGetOffset ptr)) ptrs,
                                   card (dom (buffers a10)),
                                   (GetBufferId p, PointerGetOffset p),
                                   (GetBufferId q, PointerGetOffset q)))))))"

definition one_buffer :: "FixedSizeAllocator \<Rightarrow> validity_data \<Rightarrow> nat \<Rightarrow> FixedSizeAllocator" where
  "one_buffer a0 data n =
     a0\<lparr>total_segment_count := n,
        buffers := [0 \<mapsto> fresh_buffer\<lparr>validity := data, segment_count := n\<rparr>],
        buffers_with_free_space := {0}\<rparr>"

definition largest_segment_allocator :: FixedSizeAllocator where
  "largest_segment_allocator =
     \<lparr>segment_size = 262136, bitmask_count = 1, bitmask_offset = 8,
      available_segments_per_buffer = 1, total_segment_count = 0, buffers = Map.empty,
      buffers_with_free_space = {}, vacuum_buffers = {}\<rparr>"

definition gap_allocator :: FixedSizeAllocator where
  "gap_allocator = largest_segment_allocator\<lparr>buffers := [0 \<mapsto> fresh_buffer, 3 \<mapsto> fresh_buffer]\<rparr>"

text \<open>
  Specification side of claim C1: \<open>available\<close> segments of \<open>segment_size'\<close> bytes and
  their bitmask fit into a block.
\<close>

definition segments_fit :: "nat \<Rightarrow> nat \<Rightarrow> nat \<Rightarrow> bool" where
  "segments_fit block_size segment_size' available \<longleftrightarrow>
     ((available + 63) div 64) * 8 + available * segment_size' \<le> block_size"

definition overcommitted_allocator :: FixedSizeAllocator where
  "overcommitted_allocator =
     \<lparr>segment_size = 262135, bitmask_count = 2, bitmask_offset = 16,
      available_segments_per_buffer = 65, total_segment_count = 0, buffers = Map.empty,
      buffers_with_free_space = {}, vacuum_buffers = {}\<rparr>"

definition used_rows :: "nat \<Rightarrow> validity_data \<Rightarrow> nat set" where
  "used_rows n data = {row. row < n \<and> \<not> RowIsValid data row}"

definition wf_buffer :: "nat \<Rightarrow> FixedSizeBuffer \<Rightarrow> bool" where
  "wf_buffer available buf \<longleftrightarrow>
     card (used_rows available (validity buf)) = segment_count buf
     \<and> (\<forall>row. RowIsValid (validity buf) row \<longrightarrow> row < available)"

definition wf_config :: "FixedSizeAllocator \<Rightarrow> bool" where
  "wf_config a \<longleftrightarrow>
     1 \<le> available_segments_per_buffer a
     \<and> available_segments_per_buffer a \<le> 64 * bitmask_count a
     \<and> available_segments_per_buffer a \<le> 2 ^ 32"

definition segment_total :: "(nat \<rightharpoonup> FixedSizeBuffer) \<Rightarrow> nat" where
  "segment_total bufs = (\<Sum>b \<in> dom bufs. segment_count (the (bufs b)))"

definition wf_allocator :: "FixedSizeAllocator \<Rightarrow> bool" where
  "wf_allocator a \<longleftrightarrow>
     wf_config a \<and> finite (dom (buffers a)) \<and> (\<forall>b \<in> dom (buffers a). b < 2 ^ 32)
     \<and> buffers_with_free_space a =
         {b. \<exists>buf. buffers a b = Some buf \<and> segment_count buf < available_segments_per_buffer a}
     \<and> (\<forall>b buf. buffers a b = Some buf \<longrightarrow> wf_buffer (available_segments_per_buffer a) buf)
     \<and> total_segment_count a = segment_total (buffers a)"

definition live :: "FixedSizeAllocator \<Rightarrow> IndexPointer \<Rightarrow> bool" where
  "live a ptr \<longleftrightarrow>
     (case buffers a (GetBufferId ptr) of
        None \<Rightarrow> False
      | Some buf \<Rightarrow> PointerGetOffset ptr < available_segments_per_buffer a
                  \<and> \<not> RowIsValid (validity buf) (PointerGetOffset ptr))"

text \<open>The state after a slot of buffer \<open>b\<close> has been handed out.\<close>

definition after_alloc :: "FixedSizeAllocator \<Rightarrow> nat \<Rightarrow> FixedSizeBuffer \<Rightarrow> nat \<Rightarrow> FixedSizeAllocator" where
  "after_alloc a b buf r =
     a\<lparr>total_segment_count := total_segment_count a + 1,
       buffers := (buffers a)(b \<mapsto> buf\<lparr>validity := SetInvalid (validity buf) r,
                                              segment_count := segment_count buf + 1\<rparr>),
       buffers_with_free_space :=
         (if segment_count buf + 1 = available_segments_per_buffer a
          then buffers_with_free_space a - {b} else buffers_with_free_space a)\<rparr>"

inductive reachable :: "FixedSizeAllocator \<Rightarrow> FixedSizeAllocator \<Rightarrow> bool" for a0 where
  start: "reachable a0 a0"
| new: "reachable a0 a \<Longrightarrow> New a = Inr (a', ptr) \<Longrightarrow> reachable a0 a'"
| free: "reachable a0 a \<Longrightarrow> live a ptr \<Longrightarrow> Free a ptr = Inr a' \<Longrightarrow> reachable a0 a'"

definition with_buffer :: "FixedSizeAllocator \<Rightarrow> nat \<Rightarrow> FixedSizeAllocator" where
  "with_buffer a r =
     a\<lparr>buffers := (buffers a)(r \<mapsto>
          fresh_buffer\<lparr>validity := SetAllValid (available_segments_per_buffer a)\<rparr>),
       buffers_with_free_space := insert r (buffers_with_free_space a)\<rparr>"

definition after_free :: "FixedSizeAllocator \<Rightarrow> nat \<Rightarrow> FixedSizeBuffer \<Rightarrow> nat \<Rightarrow> FixedSizeAllocator" where
  "after_free a b buf off =
     a\<lparr>buffers_with_free_space := insert b (buffers_with_free_space a),
       total_segment_count := total_segment_count a - 1,
       buffers := (buffers a)(b \<mapsto> buf\<lparr>validity := SetValid (validity buf) off,
                                              segment_count := segment_count buf - 1\<rparr>)\<rparr>"

subsection \<open>\<open>GetMaxOffset\<close>\<close>

text \<open>
  \<open>GetMaxOffset\<close>: the loop over the entries from the last one downwards; \<open>max_offset\<close>
  is a \<open>uint32_t\<close>.
\<close>

fun max_offset_loop :: "nat \<Rightarrow> nat \<Rightarrow> validity_data \<Rightarrow> nat \<Rightarrow> nat \<Rightarrow> error + nat" where
  "max_offset_loop bitmask_count' bits_in_last_entry data i max_offset =
     (if i > 0 then
        let entry = (if i = bitmask_count' then data (i - 1) OR push_bit bits_in_last_entry (- 1)
                     else data (i - 1))
        in if entry = - 1
           then max_offset_loop bitmask_count' bits_in_last_entry data (i - 1) (sub32 max_offset (8 * 8))
           else
             case leftmost_ladder (NOT entry) of (entry_inv, first_valid_bit) \<Rightarrow>
               if entry_inv = 0 then Inl assertion_failed
               else
                 let max_offset' = sub32 max_offset (sub64 (8 * 8) first_valid_bit)
                 in if RowIsValid data max_offset' then Inl assertion_failed
                    else Inr (uint32 (max_offset' + 1))
      else Inl (InternalException ''tried to serialize empty buffer''))"

definition GetMaxOffset :: "FixedSizeAllocator \<Rightarrow> validity_data \<Rightarrow> error + nat" where
  "GetMaxOffset a data =
     (let max_offset = uint32 (bitmask_count a * 8 * 8);
          bits_in_last_entry = available_segments_per_buffer a mod (8 * 8)
      in if \<not> bitmask_count a > 0 then Inl assertion_failed
         else max_offset_loop (bitmask_count a) bits_in_last_entry data (bitmask_count a) max_offset)"

text \<open>
  The rows as \<open>GetMaxOffset\<close> sees them: the rows of the last entry from position
  \<open>bits_in_last_entry\<close> on count as valid.
\<close>

definition forced_valid :: "nat \<Rightarrow> nat \<Rightarrow> validity_data \<Rightarrow> nat \<Rightarrow> bool" where
  "forced_valid bitmask_count' bits_in_last_entry data row \<longleftrightarrow>
     RowIsValid data row \<or> (row div 64 = bitmask_count' - 1 \<and> bits_in_last_entry \<le> row mod 64)"

subsection \<open>\<open>Serialize\<close> and \<open>Deserialize\<close>\<close>

text \<open>
  Modelled from the spec: the partial block manager, the metadata writer and reader, the
  method \<open>FixedSizeBuffer::Serialize\<close>, the restored form of a buffer and
  \<open>FixedSizeAllocator::Get\<close> are declared outside the files at hand.

  The partial block manager persists a prefix of a block under a block pointer it has not
  handed out before.  \<open>FixedSizeBuffer::Serialize\<close> writes the first \<open>used_bytes\<close> bytes of
  the buffer's block and records the block pointer and the allocation size; \<open>head\<close> is the
  size of the bitmask at the head of the block.  Bytes that were not written read as zero.
\<close>

record block_image =
  image_validity :: validity_data
  image_payload :: "nat \<Rightarrow> 8 word"

record PartialBlockManager =
  next_block :: nat
  blocks :: "nat \<rightharpoonup> block_image"

definition block_prefix :: "nat \<Rightarrow> FixedSizeBuffer \<Rightarrow> nat \<Rightarrow> block_image" where
  "block_prefix head buffer used_bytes =
     \<lparr>image_validity = (\<lambda>e. if 8 * e + 8 \<le> min head used_bytes then validity buffer e else 0),
      image_payload = (\<lambda>i. if head + i < used_bytes then payload buffer i else 0)\<rparr>"

definition buffer_Serialize ::
  "nat \<Rightarrow> PartialBlockManager \<Rightarrow> FixedSizeBuffer \<Rightarrow> nat \<Rightarrow> PartialBlockManager \<times> FixedSizeBuffer" where
  "buffer_Serialize head partial_block_manager buffer used_bytes =
     (partial_block_manager\<lparr>next_block := next_block partial_block_manager + 1,
        blocks := (blocks partial_block_manager)(next_block partial_block_manager \<mapsto>
                     block_prefix head buffer used_bytes)\<rparr>,
      buffer\<lparr>block_pointer := next_block partial_block_manager, allocation_size := used_bytes\<rparr>)"

text \<open>
  Modelled from the spec: a restored buffer is built from its block pointer, segment count
  and allocation size; its block is what the disk holds under the block pointer (paging is
  transparent).
\<close>

definition restored_buffer :: "(nat \<rightharpoonup> block_image) \<Rightarrow> nat \<Rightarrow> nat \<Rightarrow> nat \<Rightarrow> FixedSizeBuffer" where
  "restored_buffer disk segment_count' allocation_size' block_pointer' =
     (case disk block_pointer' of
        Some img \<Rightarrow>
          \<lparr>segment_count = segment_count', vacuum = False, validity = image_validity img,
           payload = image_payload img, block_pointer = block_pointer',
           allocation_size = allocation_size'\<rparr>
      | None \<Rightarrow>
          \<lparr>segment_count = segment_count', vacuum = False, validity = (\<lambda>_. 0),
           payload = (\<lambda>_. 0), block_pointer = block_pointer',
           allocation_size = allocation_size'\<rparr>)"

text \<open>
  Modelled from the spec: \<open>Get\<close> returns the address of the segment a pointer names, the
  start of the segment region plus \<open>offset * segment_size\<close>; \<open>Get a ptr i\<close> is the byte \<open>i\<close>
  of that segment.  The caller writes the segments through these addresses:
  \<open>with_payload a f\<close> is the allocator \<open>a\<close> with the bytes \<open>f b\<close> in the segment region of
  each buffer \<open>b\<close>.
\<close>

definition Get :: "FixedSizeAllocator \<Rightarrow> IndexPointer \<Rightarrow> nat \<Rightarrow> 8 word" where
  "Get a ptr i =
     payload (the (buffers a (GetBufferId ptr))) (PointerGetOffset ptr * segment_size a + i)"

definition with_payload :: "FixedSizeAllocator \<Rightarrow> (nat \<Rightarrow> nat \<Rightarrow> 8 word) \<Rightarrow> FixedSizeAllocator" where
  "with_payload a f =
     a\<lparr>buffers := (\<lambda>b. map_option (\<lambda>buffer. buffer\<lparr>payload := f b\<rparr>) (buffers a b))\<rparr>"

text \<open>
  Modelled from the spec: the metadata stream is the list of the values written so far; the
  block pointer of the writer is its position in the stream, and a reader opened at a block
  pointer reads the values from that position on.  Reading past the end is an error.
\<close>

definition read_error :: error where
  "read_error = InternalException ''read past the end of the metadata''"

text \<open>
  \<open>Serialize\<close>.  The first loop computes the allocation size of every buffer and writes the
  buffer; the ids are visited in ascending order in all loops.  The result is the allocator
  and the partial block manager after the call, the metadata stream, and the block pointer
  that is returned.
\<close>

fun serialize_buffers ::
  "FixedSizeAllocator \<Rightarrow> nat list \<Rightarrow> (nat \<rightharpoonup> FixedSizeBuffer) \<times> PartialBlockManager
     \<Rightarrow> error + (nat \<rightharpoonup> FixedSizeBuffer) \<times> PartialBlockManager" where
  "serialize_buffers a [] st = Inr st"
| "serialize_buffers a (buffer_id # ids) (bufs, partial_block_manager) =
     (case GetMaxOffset a (validity (the (bufs buffer_id))) of
        Inl e \<Rightarrow> Inl e
      | Inr max_offset \<Rightarrow>
          let allocation_size' = add64 (mul64 max_offset (segment_size a)) (bitmask_offset a) in
          case buffer_Serialize (bitmask_offset a) partial_block_manager (the (bufs buffer_id)) allocation_size' of
            (partial_block_manager', buffer') \<Rightarrow>
              serialize_buffers a ids (bufs(buffer_id \<mapsto> buffer'), partial_block_manager'))"

definition buffer_entries :: "(nat \<rightharpoonup> FixedSizeBuffer) \<Rightarrow> nat list \<Rightarrow> nat list" where
  "buffer_entries bufs ids =
     concat (map (\<lambda>buffer_id. [buffer_id, block_pointer (the (bufs buffer_id)),
                                segment_count (the (bufs buffer_id)),
                                allocation_size (the (bufs buffer_id))]) ids)"

definition Serialize ::
  "FixedSizeAllocator \<Rightarrow> PartialBlockManager \<Rightarrow> nat list
     \<Rightarrow> error + FixedSizeAllocator \<times> PartialBlockManager \<times> nat list \<times> nat" where
  "Serialize a partial_block_manager writer =
     (case serialize_buffers a (sorted_list_of_set (dom (buffers a))) (buffers a, partial_block_manager) of
        Inl e \<Rightarrow> Inl e
      | Inr (bufs, partial_block_manager') \<Rightarrow>
          let block_pointer' = length writer;
              writer1 = writer @ [segment_size a, card (dom bufs), card (buffers_with_free_space a)];
              writer2 = writer1 @ buffer_entries bufs (sorted_list_of_set (dom bufs));
              writer3 = writer2 @ sorted_list_of_set (buffers_with_free_space a)
          in Inr (a\<lparr>buffers := bufs\<rparr>, partial_block_manager', writer3, block_pointer'))"

text \<open>
  \<open>Deserialize\<close>, called on the allocator \<open>a\<close> with the disk and the metadata stream that
  its block manager and metadata manager hold.
\<close>

fun read_buffers ::
  "(nat \<rightharpoonup> block_image) \<Rightarrow> nat \<Rightarrow> nat list \<Rightarrow> (nat \<rightharpoonup> FixedSizeBuffer) \<times> nat
     \<Rightarrow> error + ((nat \<rightharpoonup> FixedSizeBuffer) \<times> nat) \<times> nat list" where
  "read_buffers disk 0 reader st = Inr (st, reader)"
| "read_buffers disk (Suc n) (buffer_id # buffer_block_pointer # segment_count' # allocation_size' # reader)
       (bufs, total_segment_count') =
     read_buffers disk n reader
       (map_insert bufs buffer_id (restored_buffer disk segment_count' allocation_size' buffer_block_pointer),
        add64 total_segment_count' segment_count')"
| "read_buffers disk (Suc n) reader st = Inl read_error"

fun read_free_space :: "nat \<Rightarrow> nat list \<Rightarrow> nat set \<Rightarrow> error + nat set \<times> nat list" where
  "read_free_space 0 reader free_space = Inr (free_space, reader)"
| "read_free_space (Suc n) (buffer_id # reader) free_space =
     read_free_space n reader (insert buffer_id free_space)"
| "read_free_space (Suc n) [] free_space = Inl read_error"

definition Deserialize ::
  "FixedSizeAllocator \<Rightarrow> (nat \<rightharpoonup> block_image) \<Rightarrow> nat list \<Rightarrow> nat \<Rightarrow> error + FixedSizeAllocator" where
  "Deserialize a disk metadata block_pointer' =
     (case drop block_pointer' metadata of
        segment_size' # buffer_count # buffers_with_free_space_count # reader \<Rightarrow>
          (case read_buffers disk buffer_count reader (buffers a, 0) of
             Inl e \<Rightarrow> Inl e
           | Inr ((bufs, total_segment_count'), reader') \<Rightarrow>
               (case read_free_space buffers_with_free_space_count reader' (buffers_with_free_space a) of
                  Inl e \<Rightarrow> Inl e
                | Inr (free_space, reader'') \<Rightarrow>
                    Inr (a\<lparr>segment_size := segment_size', total_segment_count := total_segment_count',
                           buffers := bufs, buffers_with_free_space := free_space\<rparr>)))
      | _ \<Rightarrow> Inl read_error)"

text \<open>
  The allocator the constructor returns for segment size 87378 (\<open>ctor_87378\<close>), its state
  after one call of \<open>New\<close>, and the state after \<open>Free\<close> of the pointer that call returned.
\<close>

definition allocator_87378 :: FixedSizeAllocator where
  "allocator_87378 =
     \<lparr>segment_size = 87378, bitmask_count = 1, bitmask_offset = 8,
      available_segments_per_buffer = 3, total_segment_count = 0, buffers = Map.empty,
      buffers_with_free_space = {}, vacuum_buffers = {}\<rparr>"

definition one_segment_87378 :: FixedSizeAllocator where
  "one_segment_87378 = one_buffer allocator_87378 (SetInvalid (SetAllValid 3) 0) 1"

definition no_segment_87378 :: FixedSizeAllocator where
  "no_segment_87378 = one_buffer allocator_87378 (SetValid (SetInvalid (SetAllValid 3) 0) 0) 0"

subsection \<open>\<open>Merge\<close>\<close>

text \<open>
  \<open>Merge\<close>.  The loops over \<open>other.buffers\<close> and \<open>other.buffers_with_free_space\<close> visit
  the ids in ascending order.  The sums \<open>buffer.first + upper_bound_id\<close>,
  \<open>buffer_id + upper_bound_id\<close> and \<open>total_segment_count += other.total_segment_count\<close> are
  \<open>idx_t\<close> sums and wrap at \<open>2^64\<close>; \<open>buffers.insert\<close> keeps the buffer that is already
  stored under a key.  \<open>other.total_segment_count\<close> is not written.  \<open>self\<close> and \<open>other\<close>
  are two allocator objects; the result is the pair of the two after the call.
\<close>

definition Merge :: "FixedSizeAllocator \<Rightarrow> FixedSizeAllocator \<Rightarrow> error + FixedSizeAllocator \<times> FixedSizeAllocator" where
  "Merge a other =
     (if segment_size a \<noteq> segment_size other then Inl assertion_failed
      else
        let upper_bound_id = GetUpperBoundBufferId a;
            bufs = fold (\<lambda>buffer_id m. map_insert m (add64 buffer_id upper_bound_id) (the (buffers other buffer_id)))
                     (sorted_list_of_set (dom (buffers other))) (buffers a);
            free_space = fold (\<lambda>buffer_id s. insert (add64 buffer_id upper_bound_id) s)
                     (sorted_list_of_set (buffers_with_free_space other)) (buffers_with_free_space a)
        in Inr (a\<lparr>buffers := bufs, buffers_with_free_space := free_space,
                   total_segment_count := add64 (total_segment_count a) (total_segment_count other)\<rparr>,
                other\<lparr>buffers := Map.empty, buffers_with_free_space := {}\<rparr>))"

text \<open>
  The allocator the constructor returns for segment size 8000 (\<open>ctor_8000\<close>), its states
  after one and after two calls of \<open>New\<close>, and the result of merging the second with the
  first.
\<close>

definition allocator_8000 :: FixedSizeAllocator where
  "allocator_8000 =
     \<lparr>segment_size = 8000, bitmask_count = 2, bitmask_offset = 16,
      available_segments_per_buffer = 32, total_segment_count = 0, buffers = Map.empty,
      buffers_with_free_space = {}, vacuum_buffers = {}\<rparr>"

definition one_segment_8000 :: FixedSizeAllocator where
  "one_segment_8000 = one_buffer allocator_8000 (SetInvalid (SetAllValid 32) 0) 1"

definition two_segments_8000 :: FixedSizeAllocator where
  "two_segments_8000 = one_buffer allocator_8000 (SetInvalid (SetInvalid (SetAllValid 32) 0) 1) 2"

definition merged_8000 :: FixedSizeAllocator where
  "merged_8000 =
     allocator_8000\<lparr>total_segment_count := 3,
        buffers := [0 \<mapsto> fresh_buffer\<lparr>validity := SetInvalid (SetInvalid (SetAllValid 32) 0) 1, segment_count := 2\<rparr>,
                    1 \<mapsto> fresh_buffer\<lparr>validity := SetInvalid (SetAllValid 32) 0, segment_count := 1\<rparr>],
        buffers_with_free_space := {0, 1}\<rparr>"

text \<open>An allocator whose only buffer has the largest id an \<open>idx_t\<close> holds.\<close>

definition last_id_allocator :: "FixedSizeBuffer \<Rightarrow> FixedSizeAllocator" where
  "last_id_allocator buf = largest_segment_allocator\<lparr>buffers := [2 ^ 64 - 1 \<mapsto> buf]\<rparr>"

section \<open>The bit-scan ladder finds the rightmost set bit\<close>

lemma SHIFT_simps:
  "SHIFT 0 = 32" "SHIFT 1 = 16" "SHIFT (Suc 0) = 16" "SHIFT 2 = 8" "SHIFT 3 = 4"
  "SHIFT 4 = 2" "SHIFT 5 = 1"
  by (simp_all add: SHIFT_def)

lemma levels: "[0..<6] = [0, 1, 2, 3, 4, 5]"
  by (simp add: upt_rec)

lemma BASE_contract:
  "i < 6 \<Longrightarrow> take_bit (2 * SHIFT i) (BASE i) = mask (SHIFT i)"
proof -
  assume "i < 6"
  then consider "i = 0" | "i = 1" | "i = 2" | "i = 3" | "i = 4" | "i = 5" by linarith
  then show ?thesis
    by cases (simp_all add: SHIFT_def BASE_def mask_eq_exp_minus_1)
qed

lemma and_BASE:
  assumes "i < 6" "below (2 * SHIFT i) x"
  shows "x AND BASE i = take_bit (SHIFT i) x"
proof -
  have "x AND BASE i = (x AND mask (2 * SHIFT i)) AND BASE i"
    using assms(2) by (simp add: below_def take_bit_eq_mask)
  also have "\<dots> = x AND (BASE i AND mask (2 * SHIFT i))"
    by (simp add: ac_simps)
  also have "BASE i AND mask (2 * SHIFT i) = mask (SHIFT i)"
    using BASE_contract[OF assms(1)] by (simp add: take_bit_eq_mask)
  finally show ?thesis by (simp add: take_bit_eq_mask)
qed

lemma nonzero_bit: "(x :: validity_t) \<noteq> 0 \<Longrightarrow> \<exists>n. bit x n"
  by (auto simp: bit_eq_iff)

lemma lowest_set_low:
  assumes "take_bit s x \<noteq> 0"
  shows "lowest_set (take_bit s x) = lowest_set x"
proof -
  obtain n where n: "bit (take_bit s x) n" using nonzero_bit[OF assms] by blast
  then have "n < s" "bit x n" by (auto simp: bit_simps)
  define k where "k = (LEAST n. bit x n)"
  have k: "bit x k" "\<And>m. bit x m \<Longrightarrow> k \<le> m"
    unfolding k_def using \<open>bit x n\<close> by (auto intro: LeastI Least_le)
  have "k < s" using k(2)[OF \<open>bit x n\<close>] \<open>n < s\<close> by simp
  have "(LEAST n. bit (take_bit s x) n) = k"
    by (rule Least_equality) (use k \<open>k < s\<close> in \<open>auto simp: bit_simps\<close>)
  then show ?thesis by (simp add: lowest_set_def k_def)
qed

lemma lowest_set_high:
  assumes "x \<noteq> 0" "take_bit s x = 0"
  shows "lowest_set (drop_bit s x) + s = lowest_set x" "drop_bit s x \<noteq> 0"
proof -
  obtain n where n: "bit x n" using nonzero_bit[OF assms(1)] by blast
  define k where "k = (LEAST n. bit x n)"
  have k: "bit x k" "\<And>m. bit x m \<Longrightarrow> k \<le> m"
    unfolding k_def using n by (auto intro: LeastI Least_le)
  have low: "\<not> bit x m" if "m < s" for m
  proof
    assume "bit x m"
    then have "bit (take_bit s x) m" using that by (simp add: bit_simps)
    then show False using assms(2) by simp
  qed
  have "s \<le> k" using low k(1) by (meson not_le)
  have "(LEAST n. bit (drop_bit s x) n) = k - s"
  proof (rule Least_equality)
    show "bit (drop_bit s x) (k - s)" using k(1) \<open>s \<le> k\<close> by (simp add: bit_simps)
  next
    fix y assume "bit (drop_bit s x) y"
    then have "bit x (s + y)" by (simp add: bit_simps)
    then have "k \<le> s + y" by (rule k(2))
    then show "k - s \<le> y" by simp
  qed
  then show "lowest_set (drop_bit s x) + s = lowest_set x"
    using \<open>s \<le> k\<close> by (simp add: lowest_set_def k_def)
  have "bit (drop_bit s x) (k - s)" using k(1) \<open>s \<le> k\<close> by (simp add: bit_simps)
  then show "drop_bit s x \<noteq> 0" by auto
qed

lemma below_take: "below s (take_bit s x)"
  by (simp add: below_def)

lemma below_drop:
  assumes "below (2 * s) x"
  shows "below s (drop_bit s x)"
proof -
  have "bit (take_bit s (drop_bit s x)) n = bit (drop_bit s x) n" for n
  proof (cases "bit x (s + n)")
    case True
    then have "bit (take_bit (2 * s) x) (s + n)" using assms by (simp add: below_def)
    then have "s + n < 2 * s" by (simp add: bit_simps)
    then show ?thesis by (simp add: bit_simps)
  next
    case False
    then show ?thesis by (simp add: bit_simps)
  qed
  then show ?thesis unfolding below_def by (rule bit_eqI)
qed

lemma below_64: "below 64 x"
  unfolding below_def by (simp add: take_bit_word_eq_self)

lemma below_1_bit:
  assumes "below 1 x" "bit x n"
  shows "n = 0"
proof -
  have "bit (take_bit 1 x) n" using assms by (simp add: below_def)
  then show ?thesis by (simp add: bit_simps)
qed

lemma rightmost_step_inv:
  assumes "i < 6" "x \<noteq> 0" "below (2 * SHIFT i) x" "rightmost_step i (x, p) = (x', p')"
  shows "x' \<noteq> 0 \<and> below (SHIFT i) x' \<and> p' + lowest_set x' = p + lowest_set x"
proof (cases "take_bit (SHIFT i) x = 0")
  case True
  then have "x' = drop_bit (SHIFT i) x" "p' = p + SHIFT i"
    using assms by (auto simp: rightmost_step_def and_BASE)
  then show ?thesis
    using lowest_set_high[OF assms(2) True] below_drop[OF assms(3)] by simp
next
  case False
  then have "x' = take_bit (SHIFT i) x" "p' = p"
    using assms by (auto simp: rightmost_step_def and_BASE)
  then show ?thesis
    using lowest_set_low[OF False] False below_take by simp
qed

lemma rightmost_ladder_correct:
  assumes "x \<noteq> 0"
  shows "fst (rightmost_ladder x) \<noteq> 0 \<and> snd (rightmost_ladder x) = lowest_set x"
proof -
  obtain x0 p0 where s0: "rightmost_step 0 (x, 0) = (x0, p0)" by (cases "rightmost_step 0 (x, 0)")
  obtain x1 p1 where s1: "rightmost_step 1 (x0, p0) = (x1, p1)" by (cases "rightmost_step 1 (x0, p0)")
  obtain x2 p2 where s2: "rightmost_step 2 (x1, p1) = (x2, p2)" by (cases "rightmost_step 2 (x1, p1)")
  obtain x3 p3 where s3: "rightmost_step 3 (x2, p2) = (x3, p3)" by (cases "rightmost_step 3 (x2, p2)")
  obtain x4 p4 where s4: "rightmost_step 4 (x3, p3) = (x4, p4)" by (cases "rightmost_step 4 (x3, p3)")
  obtain x5 p5 where s5: "rightmost_step 5 (x4, p4) = (x5, p5)" by (cases "rightmost_step 5 (x4, p4)")
  have i0: "x0 \<noteq> 0 \<and> below 32 x0 \<and> p0 + lowest_set x0 = lowest_set x"
    using rightmost_step_inv[OF _ assms _ s0] below_64 by (simp add: SHIFT_simps)
  have i1: "x1 \<noteq> 0 \<and> below 16 x1 \<and> p1 + lowest_set x1 = lowest_set x"
    using rightmost_step_inv[OF _ _ _ s1] i0 by (simp add: SHIFT_simps)
  have i2: "x2 \<noteq> 0 \<and> below 8 x2 \<and> p2 + lowest_set x2 = lowest_set x"
    using rightmost_step_inv[OF _ _ _ s2] i1 by (simp add: SHIFT_simps)
  have i3: "x3 \<noteq> 0 \<and> below 4 x3 \<and> p3 + lowest_set x3 = lowest_set x"
    using rightmost_step_inv[OF _ _ _ s3] i2 by (simp add: SHIFT_simps)
  have i4: "x4 \<noteq> 0 \<and> below 2 x4 \<and> p4 + lowest_set x4 = lowest_set x"
    using rightmost_step_inv[OF _ _ _ s4] i3 by (simp add: SHIFT_simps)
  have i5: "x5 \<noteq> 0 \<and> below 1 x5 \<and> p5 + lowest_set x5 = lowest_set x"
    using rightmost_step_inv[OF _ _ _ s5] i4 by (simp add: SHIFT_simps)
  obtain n where "bit x5 n" using i5 nonzero_bit by blast
  then have "bit x5 0" using i5 below_1_bit by blast
  then have "lowest_set x5 = 0" by (simp add: lowest_set_def)
  then have "p5 = lowest_set x" using i5 by simp
  moreover have "rightmost_ladder x = (x5, p5)"
    using s1 by (simp add: rightmost_ladder_def levels s0 s2 s3 s4 s5)
  ultimately show ?thesis using i5 by simp
qed

lemma lowest_set_props:
  assumes "x \<noteq> 0"
  shows "bit x (lowest_set x)" "\<And>n. n < lowest_set x \<Longrightarrow> \<not> bit x n"
proof -
  obtain n where n: "bit x n" using nonzero_bit[OF assms] by blast
  show "bit x (lowest_set x)" unfolding lowest_set_def using n by (rule LeastI)
  show "\<not> bit x m" if "m < lowest_set x" for m
    using that unfolding lowest_set_def by (rule not_less_Least)
qed

text \<open>
  Claim C2.  For every 64-bit word \<open>x \<noteq> 0\<close> the six iterations of the mask/shift ladder of
  \<open>GetOffset\<close> leave in \<open>first_valid_bit\<close> the index of the rightmost set bit of \<open>x\<close>: that
  bit is set and no bit below it is.
\<close>

theorem find_rightmost_set_correct:
  "x \<noteq> 0 \<Longrightarrow> bit x (find_rightmost_set x) \<and> (\<forall>n < find_rightmost_set x. \<not> bit x n)"
  using rightmost_ladder_correct[of x] lowest_set_props[of x]
  by (simp add: find_rightmost_set_def)

theorem find_rightmost_set_witness:
  "(40 :: validity_t) \<noteq> 0 \<and> find_rightmost_set 40 = 3
   \<and> bit (40 :: validity_t) (find_rightmost_set 40) \<and> \<not> bit (40 :: validity_t) 2"
proof -
  have v: "find_rightmost_set 40 = 3"
    by (simp add: find_rightmost_set_def rightmost_ladder_def rightmost_step_def levels
        BASE_def SHIFT_def)
  have "(40 :: validity_t) \<noteq> 0" by simp
  from find_rightmost_set_correct[OF this] show ?thesis using v by simp
qed

lemma add64_small: "a + b < 2 ^ 64 \<Longrightarrow> add64 a b = a + b"
  by (simp add: add64_def)

lemma mul64_small: "a * b < 2 ^ 64 \<Longrightarrow> mul64 a b = a * b"
  by (simp add: mul64_def)

lemma sub_wrap_small:
  fixes a b N :: nat
  assumes "b \<le> a" "a < N"
  shows "(a + N - b mod N) mod N = a - b"
proof -
  have b: "b mod N = b" using assms by simp
  have e: "a + N - b = (a - b) + N" using assms by simp
  have l: "a - b < N" using assms by simp
  have "(a + N - b mod N) mod N = ((a - b) + N) mod N"
    by (simp only: b e)
  also have "\<dots> = (a - b) mod N" by (rule mod_add_self2)
  also have "\<dots> = a - b" using l by (rule mod_less)
  finally show ?thesis .
qed

lemma sub64_small: "b \<le> a \<Longrightarrow> a < 2 ^ 64 \<Longrightarrow> sub64 a b = a - b"
  unfolding sub64_def by (rule sub_wrap_small)

lemma segments_loop_exit:
  "\<not> byte < B \<Longrightarrow> segments_loop B s bc byte avail = Some (Inr (bc, avail))"
  by (subst segments_loop.simps) simp

lemma segments_loop_step:
  assumes "byte < B" "1 \<le> bc" "1 \<le> avail" "1 \<le> s"
  shows "segments_loop B s bc byte avail =
       (let grow = (mul64 bc 64 mod avail = 0);
              bc1 = (if grow then add64 bc 1 else bc);
              byte1 = (if grow then add64 byte 8 else byte);
              rs = min (sub64 B byte1 div s) 64
          in if rs = 0 then Some (Inr (bc1, avail))
             else segments_loop B s bc1 (add64 byte1 (mul64 rs s)) (add64 avail rs))"
  by (subst segments_loop.simps) (use assms in simp)

lemma div_bound:
  fixes r s :: nat
  assumes "0 < s"
  shows "r < (r div s) * s + s"
proof -
  have "r = s * (r div s) + r mod s" by simp
  moreover have "r mod s < s" using assms by simp
  ultimately show ?thesis by (metis add_less_cancel_left mult.commute)
qed

lemma segments_loop_total:
  assumes s: "1 \<le> s" "s \<le> B - 8" and B: "B \<le> 2 ^ 32"
    and inv: "1 \<le> bc" "1 \<le> avail" "avail \<le> byte" "8 * bc \<le> byte"
      "avail \<le> 64 * bc" "avail = 64 * bc \<or> B < byte + s" "avail \<le> B + 64"
  shows "\<exists>bc' av'. segments_loop B s bc byte avail = Some (Inr (bc', av')) \<and> 1 \<le> bc' \<and> avail \<le> av'
           \<and> av' \<le> 64 * bc' \<and> av' \<le> B + 64"
  using inv
proof (induction "B - byte" arbitrary: bc byte avail rule: less_induct)
  case less
  show ?case
  proof (cases "byte < B")
    case False
    then have "segments_loop B s bc byte avail = Some (Inr (bc, avail))"
      by (rule segments_loop_exit)
    moreover have "1 \<le> bc \<and> avail \<le> avail \<and> avail \<le> 64 * bc \<and> avail \<le> B + 64"
      using less.prems(1,5,7) by simp
    ultimately show ?thesis by blast
  next
    case True
    define grow where "grow = (mul64 bc 64 mod avail = 0)"
    define bc1 where "bc1 = (if grow then add64 bc 1 else bc)"
    define byte1 where "byte1 = (if grow then add64 byte 8 else byte)"
    define rs where "rs = min (sub64 B byte1 div s) 64"
    define byte2 where "byte2 = add64 byte1 (mul64 rs s)"
    define avail2 where "avail2 = add64 avail rs"
    have unfold: "segments_loop B s bc byte avail =
        (if rs = 0 then Some (Inr (bc1, avail)) else segments_loop B s bc1 byte2 avail2)"
      unfolding segments_loop_step[OF True less.prems(1,2) s(1)] Let_def
        grow_def bc1_def byte1_def rs_def byte2_def avail2_def ..
    have small: "byte < 2 ^ 32" "bc < 2 ^ 32" "avail < 2 ^ 32" "s \<le> 2 ^ 32"
      using True B less.prems(3,4) s by simp_all
    have a1: "add64 bc (Suc 0) = bc + 1" "add64 byte 8 = byte + 8"
      using small by (simp_all add: add64_small)
    have m64: "mul64 bc 64 = 64 * bc"
      using small(2) by (simp add: mul64_small)
    have bc1: "bc \<le> bc1" "8 * bc1 \<le> byte1"
      using less.prems(4) by (simp_all add: bc1_def byte1_def a1)
    have byte1: "byte \<le> byte1" "byte1 \<le> byte + 8"
      by (simp_all add: byte1_def a1)
    have rs64: "rs \<le> 64" by (simp add: rs_def)
    then have "rs * s \<le> 64 * 2 ^ 32"
      using small(4) by (rule mult_le_mono)
    then have rss: "rs * s < 2 ^ 39" by simp
    have "mul64 rs s = rs * s"
      using rss by (simp add: mul64_small)
    moreover have "byte1 + rs * s < 2 ^ 64"
      using rss byte1 small(1) by simp
    ultimately have byte2: "byte2 = byte1 + rs * s"
      by (simp add: byte2_def add64_small)
    have avail2: "avail2 = avail + rs"
      using rs64 small(3) by (simp add: avail2_def add64_small)
    have s0: "0 < s" using s(1) by simp
    have b1: "byte1 < 2 ^ 64" using byte1(2) small(1) by simp
    have rem_small: "rs = 0" if "byte1 \<le> B" "B < byte1 + s"
    proof -
      have "sub64 B byte1 = B - byte1" using that(1) B by (simp add: sub64_small)
      moreover have "B - byte1 < s" using that by linarith
      ultimately have "sub64 B byte1 div s = 0" by simp
      then show ?thesis by (simp add: rs_def)
    qed
    have grow_full: "grow" if "avail = 64 * bc"
      using that by (simp add: grow_def m64)
    show ?thesis
    proof (cases "rs = 0")
      case True
      have "1 \<le> bc1" using bc1(1) less.prems(1) by simp
      moreover have "avail \<le> 64 * bc1" using bc1(1) less.prems(5) by simp
      ultimately show ?thesis unfolding unfold using True less.prems(7) by simp
    next
      case False
      then have rs_le: "rs \<le> rs * s" using s(1) by simp
      then have "1 \<le> rs * s" using False by linarith
      then have "byte < byte2" using byte2 byte1(1) by linarith
      then have m: "B - byte2 < B - byte" using True by simp
      have goalA: "avail2 \<le> 64 * bc1"
      proof (cases grow)
        case True
        then show ?thesis using avail2 rs64 less.prems(5) by (simp add: bc1_def a1)
      next
        case ng: False
        then have "avail \<noteq> 64 * bc" using grow_full by blast
        then have "B < byte + s" using less.prems(6) by simp
        moreover have "byte1 = byte" using ng by (simp add: byte1_def)
        ultimately have "rs = 0" using rem_small True by simp
        then show ?thesis using False by simp
      qed
      have goalB: "avail2 = 64 * bc1 \<or> B < byte2 + s"
      proof (cases "byte1 \<le> B")
        case over: False
        then show ?thesis using byte2 by simp
      next
        case le: True
        have rem: "sub64 B byte1 = B - byte1" using le B by (simp add: sub64_small)
        show ?thesis
        proof (cases "rs < 64")
          case True
          then have "rs = (B - byte1) div s" using rem by (simp add: rs_def min_def split: if_splits)
          then have "B - byte1 < rs * s + s" using div_bound[OF s0, of "B - byte1"] by simp
          then show ?thesis using byte2 le by linarith
        next
          case full: False
          have "avail = 64 * bc"
          proof (rule ccontr)
            assume "avail \<noteq> 64 * bc"
            then have "B < byte + s" using less.prems(6) by simp
            then have "B < byte1 + s" using byte1(1) by simp
            then have "rs = 0" using rem_small le by simp
            then show False using False by simp
          qed
          then have "avail2 = 64 * bc1"
            using grow_full avail2 full rs64 by (simp add: bc1_def a1)
          then show ?thesis by simp
        qed
      qed
      have "\<exists>bc' av'. segments_loop B s bc1 byte2 avail2 = Some (Inr (bc', av')) \<and> 1 \<le> bc' \<and> avail2 \<le> av'
              \<and> av' \<le> 64 * bc' \<and> av' \<le> B + 64"
      proof (rule less.hyps[OF m])
        show "1 \<le> bc1" using bc1(1) less.prems(1) by simp
        show "1 \<le> avail2" using avail2 less.prems(2) by simp
        show "avail2 \<le> byte2" using avail2 byte2 byte1(1) rs_le less.prems(3) by linarith
        show "8 * bc1 \<le> byte2" using bc1(2) byte2 by linarith
        show "avail2 \<le> 64 * bc1" by (rule goalA)
        show "avail2 = 64 * bc1 \<or> B < byte2 + s" by (rule goalB)
        show "avail2 \<le> B + 64" using avail2 rs64 less.prems(3) True by simp
      qed
      then obtain bc' av' where r: "segments_loop B s bc1 byte2 avail2 = Some (Inr (bc', av'))"
        "1 \<le> bc'" "avail2 \<le> av'" "av' \<le> 64 * bc'" "av' \<le> B + 64" by blast
      have "segments_loop B s bc byte avail = Some (Inr (bc', av'))"
        unfolding unfold using False r(1) by simp
      moreover have "avail \<le> av'" using r(3) avail2 by simp
      ultimately show ?thesis using r(2,4,5) by blast
    qed
  qed
qed

lemma add64_consts: "add64 0 8 = 8" "add64 0 1 = 1" "add64 0 (Suc 0) = 1"
  by (simp_all add: add64_def)

lemma segments_loop_first:
  assumes "0 < B" "1 \<le> s"
  shows "segments_loop B s 0 0 0 =
       (let rs = min (sub64 B 8 div s) 64
          in if rs = 0 then Some (Inr (1, 0))
             else segments_loop B s 1 (add64 8 (mul64 rs s)) (add64 0 rs))"
proof -
  have s0: "s \<noteq> 0" using assms by simp
  show ?thesis
    by (subst segments_loop.simps)
      (simp only: assms(1) s0 if_True if_False simp_thms add64_consts Let_def)
qed

lemma segments_loop_initial:
  assumes s: "1 \<le> s" "s \<le> B - 8" and B: "B \<le> 2 ^ 32"
  shows "\<exists>bc' av'. segments_loop B s 0 0 0 = Some (Inr (bc', av')) \<and> 1 \<le> bc' \<and> 1 \<le> av'
           \<and> min ((B - 8) div s) 64 \<le> av' \<and> av' \<le> 64 * bc' \<and> av' \<le> B + 64"
proof -
  define rs where "rs = min ((B - 8) div s) 64"
  have B9: "9 \<le> B" using s by simp
  have sb: "sub64 B 8 = B - 8" using B9 B by (simp add: sub64_small)
  have unfold: "segments_loop B s 0 0 0 =
      (if rs = 0 then Some (Inr (1, 0)) else segments_loop B s 1 (add64 8 (mul64 rs s)) (add64 0 rs))"
    unfolding rs_def sb[symmetric] using segments_loop_first[of B s] B9 s(1) by (simp add: Let_def)
  have "s \<le> 1 * (B - 8)" using s by simp
  then have "1 \<le> (B - 8) div s" using s(1) by (simp add: less_eq_div_iff_mult_less_eq)
  then have rs: "1 \<le> rs" "rs \<le> 64" by (simp_all add: rs_def)
  have "s \<le> 2 ^ 32" using s B by simp
  with rs(2) have "rs * s \<le> 64 * 2 ^ 32" by (rule mult_le_mono)
  then have rss: "rs * s < 2 ^ 39" by simp
  have e1: "mul64 rs s = rs * s" using rss by (simp add: mul64_small)
  have e2: "add64 8 (rs * s) = 8 + rs * s" using rss by (simp add: add64_small)
  have e3: "add64 0 rs = rs" using rs(2) by (simp add: add64_small)
  have rs_le: "rs \<le> rs * s" using s(1) by simp
  have "\<exists>bc' av'. segments_loop B s 1 (8 + rs * s) rs = Some (Inr (bc', av')) \<and> 1 \<le> bc' \<and> rs \<le> av'
          \<and> av' \<le> 64 * bc' \<and> av' \<le> B + 64"
  proof (rule segments_loop_total[OF s B])
    show "1 \<le> (1::nat)" by simp
    show "1 \<le> rs" by (rule rs(1))
    show "rs \<le> 8 + rs * s" using rs_le by linarith
    show "8 * 1 \<le> 8 + rs * s" by simp
    show "rs \<le> 64 * 1" using rs(2) by simp
    show "rs \<le> B + 64" using rs(2) by simp
    show "rs = 64 * 1 \<or> B < 8 + rs * s + s"
    proof (cases "rs < 64")
      case True
      then have "rs = (B - 8) div s" by (simp add: rs_def min_def split: if_splits)
      moreover have "0 < s" using s(1) by simp
      ultimately have "B - 8 < rs * s + s" using div_bound[of s "B - 8"] by simp
      then show ?thesis by linarith
    next
      case False
      then show ?thesis using rs(2) by simp
    qed
  qed
  then obtain bc' av' where r: "segments_loop B s 1 (8 + rs * s) rs = Some (Inr (bc', av'))"
    "1 \<le> bc'" "rs \<le> av'" "av' \<le> 64 * bc'" "av' \<le> B + 64" by blast
  have "rs \<noteq> 0" using rs(1) by simp
  then have "segments_loop B s 0 0 0 = Some (Inr (bc', av'))"
    unfolding unfold e1 e2 e3 using r(1) by simp
  moreover have "1 \<le> av'" using r(3) rs(1) by linarith
  moreover have "min ((B - 8) div s) 64 \<le> av'" using r(3) by (simp only: rs_def)
  ultimately show ?thesis using r(2,4,5) by blast
qed

declare available_id_loop.simps [simp del]

declare scan_entries.simps [simp del]

lemma row_decompose: "64 * (row div 64) + row mod 64 = (row :: nat)"
  by simp

lemma RowIsValid_SetAllValid [simp]: "RowIsValid (SetAllValid count) row \<longleftrightarrow> row < count"
proof -
  have "row mod 64 < count - 64 * (row div 64) \<longleftrightarrow> row < count"
    using row_decompose[of row] by linarith
  then show ?thesis
    by (simp add: RowIsValid_def SetAllValid_def bit_simps)
qed

lemma row_eq_iff: "(r :: nat) = row \<longleftrightarrow> r div 64 = row div 64 \<and> r mod 64 = row mod 64"
  by (metis row_decompose)

lemma RowIsValid_SetInvalid [simp]:
  "RowIsValid (SetInvalid data r) row \<longleftrightarrow> RowIsValid data row \<and> row \<noteq> r"
  using row_eq_iff[of r row]
  by (auto simp: RowIsValid_def SetInvalid_def bit_simps)

lemma RowIsValid_SetValid [simp]:
  "RowIsValid (SetValid data r) row \<longleftrightarrow> RowIsValid data row \<or> row = r"
  using row_eq_iff[of r row]
  by (auto simp: RowIsValid_def SetValid_def bit_simps)

lemma entry_zero_iff:
  "data e = 0 \<longleftrightarrow> (\<forall>j < 64. \<not> RowIsValid data (64 * e + j))"
proof
  assume "data e = 0"
  then show "\<forall>j < 64. \<not> RowIsValid data (64 * e + j)"
    by (simp add: RowIsValid_def)
next
  assume a: "\<forall>j < 64. \<not> RowIsValid data (64 * e + j)"
  have "\<not> bit (data e) j" for j
  proof (cases "j < 64")
    case True
    then show ?thesis using a by (auto simp: RowIsValid_def)
  next
    case False
    then show ?thesis using bit_imp_le_length[of "data e" j] by auto
  qed
  then show "data e = 0" by (simp add: bit_eq_iff)
qed

lemma lowest_set_less: "x \<noteq> 0 \<Longrightarrow> lowest_set x < 64"
  using lowest_set_props(1)[of x] bit_imp_le_length[of x "lowest_set x"] by simp

lemma first_valid_entry:
  assumes below: "\<forall>row < 64 * e. \<not> RowIsValid data row" and nz: "data e \<noteq> 0"
  shows "first_valid data = 64 * e + lowest_set (data e)"
  unfolding first_valid_def
proof (rule Least_equality)
  show "RowIsValid data (64 * e + lowest_set (data e))"
    using lowest_set_props(1)[OF nz] lowest_set_less[OF nz] by (simp add: RowIsValid_def)
next
  fix row assume v: "RowIsValid data row"
  show "64 * e + lowest_set (data e) \<le> row"
  proof (rule ccontr)
    assume "\<not> ?thesis"
    then have lt: "row < 64 * e + lowest_set (data e)" by simp
    have "\<not> row < 64 * e" using below v by blast
    then have ge: "64 * e \<le> row" by simp
    have "row < 64 * e + 64" using lt lowest_set_less[OF nz] by simp
    then have d: "row div 64 = e" using ge by (simp add: div_nat_eqI)
    then have m: "row mod 64 = row - 64 * e" using row_decompose[of row] by linarith
    have "row mod 64 < lowest_set (data e)" using m lt ge by simp
    then have "\<not> bit (data e) (row mod 64)" by (rule lowest_set_props(2)[OF nz])
    then show False using v d by (simp add: RowIsValid_def)
  qed
qed

lemma scan_entries_found:
  assumes "e < bc" "data e \<noteq> 0" "\<forall>row < 64 * e. \<not> RowIsValid data row"
    and "idx \<le> e"
  shows "scan_entries bc data idx = Inr (SetInvalid data (first_valid data), uint32 (first_valid data))"
  using assms(4)
proof (induction "e - idx" arbitrary: idx)
  case 0
  then have idx: "idx = e" by simp
  obtain x p where l: "rightmost_ladder (data e) = (x, p)" by (cases "rightmost_ladder (data e)")
  have x: "x \<noteq> 0" and p: "p = lowest_set (data e)"
    using rightmost_ladder_correct[OF assms(2)] l by simp_all
  have fv: "64 * e + p = first_valid data"
    using first_valid_entry[OF assms(3) assms(2)] p by simp
  have "RowIsValid data (first_valid data)"
    using lowest_set_props(1)[OF assms(2)] lowest_set_less[OF assms(2)]
    unfolding first_valid_entry[OF assms(3) assms(2)] by (simp add: RowIsValid_def)
  then show ?case
    unfolding idx by (subst scan_entries.simps) (simp add: assms(1,2) l x fv Let_def)
next
  case (Suc n)
  then have lt: "idx < e" by simp
  have "\<forall>j < 64. \<not> RowIsValid data (64 * idx + j)"
  proof (intro allI impI)
    fix j :: nat assume "j < 64"
    then have "64 * idx + j < 64 * e" using lt by simp
    then show "\<not> RowIsValid data (64 * idx + j)" using assms(3) by blast
  qed
  then have z: "data idx = 0" by (simp add: entry_zero_iff)
  have "scan_entries bc data (idx + 1) = Inr (SetInvalid data (first_valid data), uint32 (first_valid data))"
    by (rule Suc.hyps(1)) (use Suc.hyps(2) lt in simp_all)
  then show ?case
    by (subst scan_entries.simps) (use lt assms(1) z in simp)
qed

lemma scan_entries_none:
  assumes "\<forall>row < 64 * bc. \<not> RowIsValid data row" "idx \<le> bc"
  shows "scan_entries bc data idx = Inl (InternalException ''Invalid bitmask for FixedSizeAllocator'')"
  using assms(2)
proof (induction "bc - idx" arbitrary: idx)
  case 0
  then show ?case by (subst scan_entries.simps) simp
next
  case (Suc n)
  then have lt: "idx < bc" by simp
  have "\<forall>j < 64. \<not> RowIsValid data (64 * idx + j)"
  proof (intro allI impI)
    fix j :: nat assume "j < 64"
    then have "64 * idx + j < 64 * bc" using lt by simp
    then show "\<not> RowIsValid data (64 * idx + j)" using assms(1) by blast
  qed
  then have z: "data idx = 0" by (simp add: entry_zero_iff)
  have "scan_entries bc data (idx + 1) = Inl (InternalException ''Invalid bitmask for FixedSizeAllocator'')"
    by (rule Suc.hyps(1)) (use Suc.hyps(2) lt in simp_all)
  then show ?case
    by (subst scan_entries.simps) (use lt z in simp)
qed

text \<open>slow path: some valid row inside the bitmask\<close>

lemma scan_entries_spec:
  assumes "RowIsValid data row" "row < 64 * bc"
  shows "scan_entries bc data 0 = Inr (SetInvalid data (first_valid data), uint32 (first_valid data))"
    and "RowIsValid data (first_valid data)" and "first_valid data \<le> row"
proof -
  show v: "RowIsValid data (first_valid data)"
    unfolding first_valid_def using assms(1) by (rule LeastI)
  show le: "first_valid data \<le> row"
    unfolding first_valid_def using assms(1) by (rule Least_le)
  define e where "e = first_valid data div 64"
  have e: "e < bc" using le assms(2) unfolding e_def by simp
  have "bit (data e) (first_valid data mod 64)" using v by (simp add: RowIsValid_def e_def)
  then have nz: "data e \<noteq> 0" by auto
  have below: "\<forall>r < 64 * e. \<not> RowIsValid data r"
  proof (intro allI impI)
    fix r assume "r < 64 * e"
    then have "r < first_valid data" unfolding e_def by simp
    then show "\<not> RowIsValid data r" unfolding first_valid_def by (rule not_less_Least)
  qed
  show "scan_entries bc data 0 = Inr (SetInvalid data (first_valid data), uint32 (first_valid data))"
    by (rule scan_entries_found[OF e nz below]) simp
qed

lemma uint32_small [simp]: "n < 2 ^ 32 \<Longrightarrow> uint32 n = n"
  by (simp add: uint32_def)

lemma uint32_less: "uint32 n < 2 ^ 32"
  by (simp add: uint32_def)

lemma IndexPointer_unat:
  assumes "buffer_id < 2 ^ 32" "offset < 2 ^ 32"
  shows "unat (IndexPointer buffer_id offset) = offset * 2 ^ 32 + buffer_id"
proof -
  have e: "IndexPointer buffer_id offset = word_of_nat (offset * 2 ^ 32 + buffer_id)"
    using assms by (simp add: IndexPointer_def push_bit_eq_mult)
  have "offset * 2 ^ 32 \<le> (2 ^ 32 - 1) * 2 ^ 32"
    using assms(2) by simp
  then have "offset * 2 ^ 32 + buffer_id < 2 ^ 64"
    using assms(1) by simp
  then show ?thesis
    unfolding e unat_of_nat by simp
qed

lemma IndexPointer_fields:
  assumes "buffer_id < 2 ^ 32" "offset < 2 ^ 32"
  shows "GetBufferId (IndexPointer buffer_id offset) = buffer_id"
    and "PointerGetOffset (IndexPointer buffer_id offset) = offset"
proof -
  have "GetBufferId (IndexPointer buffer_id offset) = (offset * 2 ^ 32 + buffer_id) mod 2 ^ 32"
    by (simp only: GetBufferId_def unsigned_take_bit_eq IndexPointer_unat[OF assms] take_bit_nat_def)
  then show "GetBufferId (IndexPointer buffer_id offset) = buffer_id"
    using assms(1) by simp
  have "PointerGetOffset (IndexPointer buffer_id offset) = (offset * 2 ^ 32 + buffer_id) div 2 ^ 32"
    by (simp only: PointerGetOffset_def unat_drop_bit_eq IndexPointer_unat[OF assms] drop_bit_nat_def)
  then show "PointerGetOffset (IndexPointer buffer_id offset) = offset"
    using assms(1) by simp
qed

lemma IndexPointer_null: "IndexPointer 0 0 = null_pointer"
  by (simp add: IndexPointer_def null_pointer_def uint32_def)

lemma sub64_8: "9 \<le> B \<Longrightarrow> B \<le> 2 ^ 32 \<Longrightarrow> sub64 B 8 = B - 8"
  by (simp add: sub64_small)

lemma ctor_too_large:
  "sub64 B 8 < s \<Longrightarrow> \<exists>msg. FixedSizeAllocator_ctor B s = Some (Inl (InternalException msg))"
  by (simp add: FixedSizeAllocator_ctor_def)

lemma ctor_returns:
  assumes s: "1 \<le> s" "s \<le> B - 8" and B: "B \<le> 2 ^ 32"
  shows "\<exists>a. FixedSizeAllocator_ctor B s = Some (Inr a) \<and> segment_size a = s
           \<and> 1 \<le> bitmask_count a \<and> 1 \<le> available_segments_per_buffer a
           \<and> min ((B - 8) div s) 64 \<le> available_segments_per_buffer a
           \<and> available_segments_per_buffer a \<le> 64 * bitmask_count a
           \<and> available_segments_per_buffer a \<le> B + 64
           \<and> total_segment_count a = 0 \<and> buffers a = Map.empty
           \<and> buffers_with_free_space a = {} \<and> vacuum_buffers a = {}"
proof -
  obtain bc' av' where l: "segments_loop B s 0 0 0 = Some (Inr (bc', av'))" "1 \<le> bc'" "1 \<le> av'"
    "min ((B - 8) div s) 64 \<le> av'" "av' \<le> 64 * bc'" "av' \<le> B + 64"
    using segments_loop_initial[OF s B] by blast
  have "9 \<le> B" using s by simp
  then have "\<not> s > sub64 B 8" using s B by (simp add: sub64_8)
  then show ?thesis using l by (simp add: FixedSizeAllocator_ctor_def)
qed

lemma ctor_Inr_props:
  assumes "FixedSizeAllocator_ctor B s = Some (Inr a)" "9 \<le> B" "B \<le> 2 ^ 32"
  shows "segment_size a = s \<and> 1 \<le> bitmask_count a \<and> 1 \<le> available_segments_per_buffer a
           \<and> min ((B - 8) div s) 64 \<le> available_segments_per_buffer a
           \<and> available_segments_per_buffer a \<le> 64 * bitmask_count a
           \<and> available_segments_per_buffer a \<le> B + 64
           \<and> total_segment_count a = 0 \<and> buffers a = Map.empty
           \<and> buffers_with_free_space a = {} \<and> vacuum_buffers a = {}"
proof -
  have le: "s \<le> B - 8"
    using assms by (auto simp: FixedSizeAllocator_ctor_def sub64_8 split: if_splits)
  have "s \<noteq> 0"
  proof
    assume "s = 0"
    then have "segments_loop B s 0 0 0 = Some (Inl (InternalException ''division by zero''))"
      using assms(2) by (subst segments_loop.simps) simp
    then show False using assms(1) le assms(2,3) by (simp add: FixedSizeAllocator_ctor_def sub64_8 \<open>s = 0\<close>)
  qed
  then have "1 \<le> s" by simp
  from ctor_returns[OF this le assms(3)] show ?thesis using assms(1) by auto
qed

lemma available_id_loop_spec:
  assumes "\<exists>k \<le> n. bufs k = None"
  shows "\<exists>r. available_id_loop bufs n = Inr r \<and> r \<le> n \<and> bufs r = None
           \<and> (\<forall>k. r < k \<and> k \<le> n \<longrightarrow> bufs k \<noteq> None)"
  using assms
proof (induction n)
  case 0
  then show ?case by (subst available_id_loop.simps) simp
next
  case (Suc n)
  show ?case
  proof (cases "bufs (Suc n) = None")
    case True
    then show ?thesis by (subst available_id_loop.simps) auto
  next
    case False
    with Suc.prems have "\<exists>k \<le> n. bufs k = None"
      by (metis le_SucE)
    from Suc.IH[OF this] obtain r where r: "available_id_loop bufs n = Inr r" "r \<le> n"
      "bufs r = None" "\<forall>k. r < k \<and> k \<le> n \<longrightarrow> bufs k \<noteq> None" by blast
    have "available_id_loop bufs (Suc n) = Inr r"
      using False r(1) by (subst available_id_loop.simps) simp
    moreover have "\<forall>k. r < k \<and> k \<le> Suc n \<longrightarrow> bufs k \<noteq> None"
      using r(4) False by (metis le_SucE)
    ultimately show ?thesis using r by auto
  qed
qed

lemma free_id_exists:
  assumes "finite (dom bufs)"
  shows "\<exists>k \<le> card (dom bufs). bufs k = None"
proof (rule ccontr)
  assume "\<not> ?thesis"
  then have "{0..card (dom bufs)} \<subseteq> dom bufs" by auto
  then have "card {0..card (dom bufs)} \<le> card (dom bufs)"
    using assms by (rule card_mono[rotated])
  then show False by simp
qed

lemma GetAvailableBufferId_spec:
  assumes "finite (dom (buffers a))"
  shows "\<exists>r. GetAvailableBufferId a = Inr r \<and> r \<le> card (dom (buffers a)) \<and> buffers a r = None
           \<and> (\<forall>k. r < k \<and> k \<le> card (dom (buffers a)) \<longrightarrow> buffers a k \<noteq> None)"
  unfolding GetAvailableBufferId_def
  by (rule available_id_loop_spec) (rule free_id_exists[OF assms])

lemma GetAvailableBufferId_empty:
  "buffers a = Map.empty \<Longrightarrow> GetAvailableBufferId a = Inr 0"
  unfolding GetAvailableBufferId_def by (subst available_id_loop.simps) simp

lemma add_buffer_spec:
  assumes "GetAvailableBufferId a = Inr r" "buffers a r = None"
  shows "add_buffer a = Inr (a\<lparr>buffers := (buffers a)(r \<mapsto>
             fresh_buffer\<lparr>validity := SetAllValid (available_segments_per_buffer a)\<rparr>),
           buffers_with_free_space := insert r (buffers_with_free_space a)\<rparr>)"
  using assms by (simp add: add_buffer_def map_insert_def Let_def)

lemma New_existing:
  assumes "buffers_with_free_space a \<noteq> {}"
    and "uint32 (Min (buffers_with_free_space a)) = b"
    and "buffers a b = Some buf"
    and "GetOffset a (validity buf) (segment_count buf) = Inr (data, off)"
  shows "New a = Inr (a\<lparr>total_segment_count := total_segment_count a + 1,
            buffers := (buffers a)(b \<mapsto> buf\<lparr>validity := data, segment_count := segment_count buf + 1\<rparr>),
            buffers_with_free_space :=
              (if segment_count buf + 1 = available_segments_per_buffer a
               then buffers_with_free_space a - {b} else buffers_with_free_space a)\<rparr>,
          IndexPointer b off)"
  using assms by (simp add: New_def Let_def)

lemma New_fresh:
  assumes "buffers_with_free_space a = {}"
    and "add_buffer a = Inr a1"
    and "New a1 = r" "buffers_with_free_space a1 \<noteq> {}"
  shows "New a = r"
  using assms by (simp add: New_def)

lemma GetOffset_fast:
  "RowIsValid data n \<Longrightarrow> GetOffset a data n = Inr (SetInvalid data n, uint32 n)"
  by (simp add: GetOffset_def)

lemma GetOffset_slow:
  assumes "\<not> RowIsValid data n" "RowIsValid data row" "row < 64 * bitmask_count a"
  shows "GetOffset a data n = Inr (SetInvalid data (first_valid data), uint32 (first_valid data))"
  using assms scan_entries_spec(1)[OF assms(2,3)] by (simp add: GetOffset_def)

text \<open>
  Claim C10.  On a freshly constructed allocator (it has no buffers) the first call of
  \<open>New\<close> succeeds and returns the pointer with buffer id 0 and offset 0, which is the
  all-zero handle, the value that also stands for the null pointer; the slot it names is
  live (row 0 of buffer 0 is no longer valid).
\<close>

theorem first_New_is_null:
  assumes "FixedSizeAllocator_ctor BLOCK_SIZE s = Some (Inr a)"
  shows "\<exists>a'. New a = Inr (a', null_pointer) \<and> GetBufferId null_pointer = 0
           \<and> PointerGetOffset null_pointer = 0 \<and> dom (buffers a') = {0}
           \<and> (\<exists>buf. buffers a' 0 = Some buf \<and> \<not> RowIsValid (validity buf) 0 \<and> segment_count buf = 1)"
proof -
  have p: "1 \<le> available_segments_per_buffer a" "buffers a = Map.empty"
    "buffers_with_free_space a = {}"
    using ctor_Inr_props[OF assms] by (simp_all add: BLOCK_SIZE_def)
  define buf where "buf = fresh_buffer\<lparr>validity := SetAllValid (available_segments_per_buffer a)\<rparr>"
  define a1 where "a1 = a\<lparr>buffers := (buffers a)(0 \<mapsto> buf), buffers_with_free_space := insert 0 (buffers_with_free_space a)\<rparr>"
  have ab: "add_buffer a = Inr a1"
    unfolding a1_def buf_def
    by (rule add_buffer_spec) (simp_all add: GetAvailableBufferId_empty p)
  have bw: "buffers_with_free_space a1 = {0}" by (simp add: a1_def p)
  have g: "GetOffset a1 (validity buf) (segment_count buf) = Inr (SetInvalid (validity buf) 0, 0)"
    using p(1) by (simp add: GetOffset_fast buf_def fresh_buffer_def)
  have n1: "New a1 = Inr (a1\<lparr>total_segment_count := total_segment_count a1 + 1,
            buffers := (buffers a1)(0 \<mapsto> buf\<lparr>validity := SetInvalid (validity buf) 0, segment_count := segment_count buf + 1\<rparr>),
            buffers_with_free_space :=
              (if segment_count buf + 1 = available_segments_per_buffer a1
               then buffers_with_free_space a1 - {0} else buffers_with_free_space a1)\<rparr>,
          IndexPointer 0 0)"
    by (rule New_existing[OF _ _ _ g]) (simp_all add: bw, simp add: a1_def)
  have "New a = Inr (a1\<lparr>total_segment_count := total_segment_count a1 + 1,
            buffers := (buffers a1)(0 \<mapsto> buf\<lparr>validity := SetInvalid (validity buf) 0, segment_count := segment_count buf + 1\<rparr>),
            buffers_with_free_space :=
              (if segment_count buf + 1 = available_segments_per_buffer a1
               then buffers_with_free_space a1 - {0} else buffers_with_free_space a1)\<rparr>,
          IndexPointer 0 0)"
    by (rule New_fresh[OF p(3) ab n1]) (simp add: bw)
  moreover have "dom ((buffers a1)(0 \<mapsto> x)) = {0}" for x
    by (simp add: a1_def p)
  moreover have "segment_count buf = 0" by (simp add: buf_def fresh_buffer_def)
  ultimately show ?thesis
    using IndexPointer_fields[of 0 0]
    by (simp add: IndexPointer_null[symmetric])
qed

lemma New_one_buffer_first:
  assumes "buffers a0 = Map.empty" "buffers_with_free_space a0 = {}" "total_segment_count a0 = 0"
    "1 < available_segments_per_buffer a0"
  shows "New a0 = Inr (one_buffer a0 (SetInvalid (SetAllValid (available_segments_per_buffer a0)) 0) 1,
                       IndexPointer 0 0)"
proof -
  define buf where "buf = fresh_buffer\<lparr>validity := SetAllValid (available_segments_per_buffer a0)\<rparr>"
  define a1 where "a1 = a0\<lparr>buffers := (buffers a0)(0 \<mapsto> buf), buffers_with_free_space := insert 0 (buffers_with_free_space a0)\<rparr>"
  have ab: "add_buffer a0 = Inr a1"
    unfolding a1_def buf_def
    by (rule add_buffer_spec) (simp_all add: GetAvailableBufferId_empty assms)
  have bw: "buffers_with_free_space a1 = {0}" by (simp add: a1_def assms)
  have g: "GetOffset a1 (validity buf) (segment_count buf) = Inr (SetInvalid (validity buf) 0, 0)"
    using assms(4) by (simp add: GetOffset_fast buf_def fresh_buffer_def)
  have n1: "New a1 = Inr (a1\<lparr>total_segment_count := total_segment_count a1 + 1,
            buffers := (buffers a1)(0 \<mapsto> buf\<lparr>validity := SetInvalid (validity buf) 0, segment_count := segment_count buf + 1\<rparr>),
            buffers_with_free_space :=
              (if segment_count buf + 1 = available_segments_per_buffer a1
               then buffers_with_free_space a1 - {0} else buffers_with_free_space a1)\<rparr>,
          IndexPointer 0 0)"
    by (rule New_existing[OF _ _ _ g]) (simp_all add: bw, simp add: a1_def)
  have "New a0 = Inr (a1\<lparr>total_segment_count := total_segment_count a1 + 1,
            buffers := (buffers a1)(0 \<mapsto> buf\<lparr>validity := SetInvalid (validity buf) 0, segment_count := segment_count buf + 1\<rparr>),
            buffers_with_free_space :=
              (if segment_count buf + 1 = available_segments_per_buffer a1
               then buffers_with_free_space a1 - {0} else buffers_with_free_space a1)\<rparr>,
          IndexPointer 0 0)"
    by (rule New_fresh[OF assms(2) ab n1]) (simp add: bw)
  then show ?thesis
    using assms by (simp add: one_buffer_def a1_def buf_def fresh_buffer_def)
qed

lemma one_buffer_fields [simp]:
  "available_segments_per_buffer (one_buffer a0 data n) = available_segments_per_buffer a0"
  "bitmask_count (one_buffer a0 data n) = bitmask_count a0"
  "buffers_with_free_space (one_buffer a0 data n) = {0}"
  "total_segment_count (one_buffer a0 data n) = n"
  "buffers (one_buffer a0 data n) = [0 \<mapsto> fresh_buffer\<lparr>validity := data, segment_count := n\<rparr>]"
  by (simp_all add: one_buffer_def)

lemma one_buffer_update:
  "(one_buffer a0 data n)\<lparr>total_segment_count := n',
      buffers := (buffers (one_buffer a0 data n))(0 \<mapsto> fresh_buffer\<lparr>validity := data', segment_count := n'\<rparr>),
      buffers_with_free_space := {0}\<rparr> = one_buffer a0 data' n'"
  by (simp add: one_buffer_def)

lemma New_one_buffer:
  assumes "GetOffset (one_buffer a0 data n) data n = Inr (data', off)"
    and "n + 1 < available_segments_per_buffer a0"
  shows "New (one_buffer a0 data n) = Inr (one_buffer a0 data' (n + 1), IndexPointer 0 off)"
proof -
  let ?a = "one_buffer a0 data n" and ?buf = "fresh_buffer\<lparr>validity := data, segment_count := n\<rparr>"
  have g: "GetOffset ?a (validity ?buf) (segment_count ?buf) = Inr (data', off)"
    using assms(1) by simp
  have "New ?a = Inr (?a\<lparr>total_segment_count := total_segment_count ?a + 1,
            buffers := (buffers ?a)(0 \<mapsto> ?buf\<lparr>validity := data', segment_count := segment_count ?buf + 1\<rparr>),
            buffers_with_free_space :=
              (if segment_count ?buf + 1 = available_segments_per_buffer ?a
               then buffers_with_free_space ?a - {0} else buffers_with_free_space ?a)\<rparr>,
          IndexPointer 0 off)"
    by (rule New_existing[OF _ _ _ g]) simp_all
  then show ?thesis
    using assms(2) one_buffer_update[of a0 data n "n + 1" data'] by simp
qed

lemma New_one_buffer_fast:
  assumes "RowIsValid data n" "n + 1 < available_segments_per_buffer a0" "n < 2 ^ 32"
  shows "New (one_buffer a0 data n) = Inr (one_buffer a0 (SetInvalid data n) (n + 1), IndexPointer 0 n)"
  by (rule New_one_buffer) (use assms in \<open>simp_all add: GetOffset_fast\<close>)

lemma New_one_buffer_slow:
  assumes "\<not> RowIsValid data n" "RowIsValid data row" "row < 64 * bitmask_count a0" "row < 2 ^ 32"
    "n + 1 < available_segments_per_buffer a0"
  shows "New (one_buffer a0 data n) =
           Inr (one_buffer a0 (SetInvalid data (first_valid data)) (n + 1), IndexPointer 0 (first_valid data))"
proof (rule New_one_buffer)
  have "first_valid data \<le> row" using scan_entries_spec(3)[OF assms(2,3)] .
  then have "uint32 (first_valid data) = first_valid data" using assms(4) by simp
  then show "GetOffset (one_buffer a0 data n) data n = Inr (SetInvalid data (first_valid data), first_valid data)"
    using GetOffset_slow[of data n row "one_buffer a0 data n"] assms by simp
qed (rule assms(5))

lemma Free_one_buffer:
  assumes "\<not> RowIsValid data off" "0 < n" "off < 2 ^ 32"
  shows "Free (one_buffer a0 data n) (IndexPointer 0 off) = Inr (one_buffer a0 (SetValid data off) (n - 1))"
  using assms IndexPointer_fields[of 0 off]
  by (simp add: Free_def Let_def one_buffer_def)

lemma first_valid_eqI:
  "RowIsValid data r \<Longrightarrow> (\<And>row. row < r \<Longrightarrow> \<not> RowIsValid data row) \<Longrightarrow> first_valid data = r"
  unfolding first_valid_def by (rule Least_equality) (auto simp: not_less[symmetric])

lemma RowIsValid_fold_SetInvalid:
  "RowIsValid (fold (\<lambda>k d. SetInvalid d k) ks data) row \<longleftrightarrow> RowIsValid data row \<and> row \<notin> set ks"
  by (induction ks arbitrary: data) auto

lemma allocate_n_one_buffer:
  assumes "n + m < available_segments_per_buffer a0" "n + m \<le> 2 ^ 32"
    and "\<forall>k. n \<le> k \<and> k < n + m \<longrightarrow> RowIsValid data k"
  shows "allocate_n m (one_buffer a0 data n) =
           Inr (one_buffer a0 (fold (\<lambda>k d. SetInvalid d k) [n..<n + m] data) (n + m),
                map (IndexPointer 0) [n..<n + m])"
  using assms
proof (induction m arbitrary: data n)
  case 0
  then show ?case by simp
next
  case (Suc m)
  have v: "RowIsValid data n" using Suc.prems(3) by simp
  have step: "New (one_buffer a0 data n) = Inr (one_buffer a0 (SetInvalid data n) (n + 1), IndexPointer 0 n)"
    by (rule New_one_buffer_fast[OF v]) (use Suc.prems in simp_all)
  have ih: "allocate_n m (one_buffer a0 (SetInvalid data n) (n + 1)) =
           Inr (one_buffer a0 (fold (\<lambda>k d. SetInvalid d k) [n + 1..<n + 1 + m] (SetInvalid data n)) (n + 1 + m),
                map (IndexPointer 0) [n + 1..<n + 1 + m])"
    by (rule Suc.IH) (use Suc.prems in auto)
  have u: "[n..<n + Suc m] = n # [n + 1..<n + 1 + m]"
    by (simp add: upt_conv_Cons)
  show ?case
    unfolding u using step ih by simp
qed

lemma allocate_n_fresh:
  assumes "buffers a0 = Map.empty" "buffers_with_free_space a0 = {}" "total_segment_count a0 = 0"
    "Suc m < available_segments_per_buffer a0" "Suc m \<le> 2 ^ 32"
  shows "allocate_n (Suc m) a0 =
           Inr (one_buffer a0 (fold (\<lambda>k d. SetInvalid d k) [0..<Suc m]
                   (SetAllValid (available_segments_per_buffer a0))) (Suc m),
                map (IndexPointer 0) [0..<Suc m])"
proof -
  let ?M = "available_segments_per_buffer a0"
  have first: "New a0 = Inr (one_buffer a0 (SetInvalid (SetAllValid ?M) 0) 1, IndexPointer 0 0)"
    by (rule New_one_buffer_first) (use assms in simp_all)
  have rest: "allocate_n m (one_buffer a0 (SetInvalid (SetAllValid ?M) 0) 1) =
           Inr (one_buffer a0 (fold (\<lambda>k d. SetInvalid d k) [1..<1 + m] (SetInvalid (SetAllValid ?M) 0)) (1 + m),
                map (IndexPointer 0) [1..<1 + m])"
    by (rule allocate_n_one_buffer) (use assms in auto)
  have u: "[0..<Suc m] = 0 # [1..<1 + m]"
    by (simp add: upt_conv_Cons)
  show ?thesis
    unfolding u using first rest by simp
qed

lemma free_then_new_scenario_run:
  "free_then_new_scenario 16 =
     Some (Inr ([(0, 0), (0, 1), (0, 2), (0, 3), (0, 4), (0, 5), (0, 6), (0, 7), (0, 8), (0, 9)],
                1, (0, 4), (0, 10)))"
proof -
  obtain a0 where a0: "FixedSizeAllocator_ctor BLOCK_SIZE 16 = Some (Inr a0)"
    "1 \<le> bitmask_count a0" "min ((BLOCK_SIZE - 8) div 16) 64 \<le> available_segments_per_buffer a0"
    "total_segment_count a0 = 0" "buffers a0 = Map.empty" "buffers_with_free_space a0 = {}"
    using ctor_returns[of 16 BLOCK_SIZE] by (auto simp: BLOCK_SIZE_def)
  let ?M = "available_segments_per_buffer a0"
  have M: "64 \<le> ?M" using a0(3) by (simp add: BLOCK_SIZE_def)
  define V10 where "V10 = fold (\<lambda>k d. SetInvalid d k) [0..<Suc 9] (SetAllValid ?M)"
  have V10: "RowIsValid V10 row \<longleftrightarrow> row < ?M \<and> \<not> row < 10" for row
    by (simp add: V10_def RowIsValid_fold_SetInvalid)
  have al: "allocate_n 10 a0 = Inr (one_buffer a0 V10 10, map (IndexPointer 0) [0..<10])"
    using allocate_n_fresh[of a0 9] a0 M by (simp add: V10_def)
  have p4: "map (IndexPointer 0) [0..<10] ! 4 = IndexPointer 0 4" by simp
  have fr: "Free (one_buffer a0 V10 10) (IndexPointer 0 4) = Inr (one_buffer a0 (SetValid V10 4) 9)"
    using Free_one_buffer[of V10 4 10 a0] by (simp add: V10)
  have fv: "first_valid (SetValid V10 4) = 4"
    by (rule first_valid_eqI) (simp_all add: V10)
  have n1: "New (one_buffer a0 (SetValid V10 4) 9) =
      Inr (one_buffer a0 (SetInvalid (SetValid V10 4) 4) 10, IndexPointer 0 4)"
    using New_one_buffer_slow[of "SetValid V10 4" 9 4 a0] M a0(2) by (simp add: V10 fv)
  have n2: "New (one_buffer a0 (SetInvalid (SetValid V10 4) 4) 10) =
      Inr (one_buffer a0 (SetInvalid (SetInvalid (SetValid V10 4) 4) 10) 11, IndexPointer 0 10)"
    using New_one_buffer_fast[of "SetInvalid (SetValid V10 4) 4" 10 a0] M by (simp add: V10)
  have ptrs: "map (\<lambda>ptr. (GetBufferId ptr, PointerGetOffset ptr)) (map (IndexPointer 0) [0..<10]) =
      [(0, 0), (0, 1), (0, 2), (0, 3), (0, 4), (0, 5), (0, 6), (0, 7), (0, 8), (0, 9)]"
    by (simp add: upt_rec IndexPointer_fields)
  show ?thesis
    unfolding free_then_new_scenario_def
    by (simp add: a0(1) al p4 fr n1 n2 ptrs IndexPointer_fields del: map_map)
qed

text \<open>
  Claim C3, as the code behaves.  Starting from a freshly constructed allocator with
  segment size 16, ten calls of \<open>New\<close> return the offsets 0 to 9, all in buffer 0, the
  only buffer.  After \<open>Free\<close> of the pointer with offset 4 the segment count of the
  buffer is 9 and row 9 is in use, so the next \<open>New\<close> takes the slow path and returns
  offset 4; the \<open>New\<close> after that finds row 10 valid and returns offset 10 on the fast
  path.  (Each pointer is given as the pair of its buffer id and offset.)
\<close>

theorem free_then_new_scenario_16:
  "free_then_new_scenario 16 =
     Some (Inr ([(0, 0), (0, 1), (0, 2), (0, 3), (0, 4), (0, 5), (0, 6), (0, 7), (0, 8), (0, 9)],
                1, (0, 4), (0, 10)))"
  by (rule free_then_new_scenario_run)

theorem free_then_new_scenario_not_10_then_4:
  "free_then_new_scenario 16 \<noteq>
     Some (Inr ([(0, 0), (0, 1), (0, 2), (0, 3), (0, 4), (0, 5), (0, 6), (0, 7), (0, 8), (0, 9)],
                1, (0, 10), (0, 4)))"
  by (simp add: free_then_new_scenario_run)

lemma ctor_largest_segment:
  "FixedSizeAllocator_ctor BLOCK_SIZE 262136 = Some (Inr largest_segment_allocator)"
  by (simp add: FixedSizeAllocator_ctor_def BLOCK_SIZE_def segments_loop.simps
      add64_def sub64_def mul64_def Let_def largest_segment_allocator_def)

theorem first_New_is_null_witness:
  "FixedSizeAllocator_ctor BLOCK_SIZE 262136 = Some (Inr largest_segment_allocator)
   \<and> (\<exists>a'. New largest_segment_allocator = Inr (a', null_pointer) \<and> GetBufferId null_pointer = 0
           \<and> PointerGetOffset null_pointer = 0 \<and> dom (buffers a') = {0}
           \<and> (\<exists>buf. buffers a' 0 = Some buf \<and> \<not> RowIsValid (validity buf) 0 \<and> segment_count buf = 1))"
  using first_New_is_null[OF ctor_largest_segment] ctor_largest_segment by simp

lemma gap_allocator_dom: "dom (buffers gap_allocator) = {0, 3}"
  by (auto simp: gap_allocator_def)

lemma gap_allocator_id: "GetAvailableBufferId gap_allocator = Inr 2"
proof -
  have "card (dom (buffers gap_allocator)) = 2" by (simp add: gap_allocator_dom)
  then show ?thesis
    unfolding GetAvailableBufferId_def
    by (simp add: available_id_loop.simps gap_allocator_def)
qed

text \<open>
  Claim C9, as the code behaves.  For every finite buffer map \<open>GetAvailableBufferId\<close>
  returns (without error) an id that is not a key of the map: the largest id not
  exceeding the number of buffers that is not a key.
\<close>

theorem GetAvailableBufferId_largest_free:
  assumes "finite (dom (buffers a))"
  shows "\<exists>r. GetAvailableBufferId a = Inr r \<and> r \<le> card (dom (buffers a)) \<and> buffers a r = None
           \<and> (\<forall>k. r < k \<and> k \<le> card (dom (buffers a)) \<longrightarrow> buffers a k \<noteq> None)"
  using assms by (rule GetAvailableBufferId_spec)

theorem GetAvailableBufferId_largest_free_witness:
  "finite (dom (buffers gap_allocator)) \<and> GetAvailableBufferId gap_allocator = Inr 2
   \<and> buffers gap_allocator 2 = None \<and> buffers gap_allocator 3 \<noteq> None"
proof -
  have f: "finite (dom (buffers gap_allocator))" by (simp add: gap_allocator_dom)
  from GetAvailableBufferId_largest_free[OF f] show ?thesis
    using f by (simp add: gap_allocator_id) (simp add: gap_allocator_def)
qed

theorem GetAvailableBufferId_not_smallest:
  "GetAvailableBufferId gap_allocator = Inr 2 \<and> buffers gap_allocator 1 = None \<and> (1 :: nat) < 2"
  by (simp add: gap_allocator_id) (simp add: gap_allocator_def)

lemma GetAvailableBufferId_contiguous:
  assumes "dom (buffers a) = {..<n}"
  shows "GetAvailableBufferId a = Inr n"
proof -
  have "card (dom (buffers a)) = n" using assms by simp
  moreover have "buffers a n = None" using assms by (metis domIff lessThan_iff less_irrefl)
  ultimately show ?thesis
    unfolding GetAvailableBufferId_def by (subst available_id_loop.simps) simp
qed

lemma ctor_overcommitted:
  "FixedSizeAllocator_ctor BLOCK_SIZE 262135 = Some (Inr overcommitted_allocator)"
  by (simp add: FixedSizeAllocator_ctor_def BLOCK_SIZE_def segments_loop.simps
      add64_def sub64_def mul64_def Let_def overcommitted_allocator_def)

lemma ctor_overcommitted_262136:
  "map_option (map_sum id (\<lambda>a. (bitmask_count a, available_segments_per_buffer a)))
     (FixedSizeAllocator_ctor 262136 262127) = Some (Inr (2, 65))"
  by (simp add: FixedSizeAllocator_ctor_def segments_loop.simps
      add64_def sub64_def mul64_def Let_def)

text \<open>
  Claim C1 at the segment size 262135, which is at most \<open>BLOCK_SIZE - 8\<close>: the constructor
  returns with 65 available segments and two bitmask entries, although a block holds one
  segment of that size with its bitmask and not two.
\<close>

theorem ctor_262135_overcommits:
  "262135 \<le> BLOCK_SIZE - 8
   \<and> FixedSizeAllocator_ctor BLOCK_SIZE 262135 = Some (Inr overcommitted_allocator)
   \<and> available_segments_per_buffer overcommitted_allocator = 65
   \<and> \<not> segments_fit BLOCK_SIZE 262135 65
   \<and> segments_fit BLOCK_SIZE 262135 1 \<and> \<not> segments_fit BLOCK_SIZE 262135 2"
  by (simp add: ctor_overcommitted) (simp add: BLOCK_SIZE_def segments_fit_def overcommitted_allocator_def)

lemma finite_used_rows [simp]: "finite (used_rows n data)"
  by (simp add: used_rows_def)

lemma used_rows_SetInvalid:
  "r < n \<Longrightarrow> used_rows n (SetInvalid data r) = insert r (used_rows n data)"
  by (auto simp: used_rows_def)

lemma used_rows_SetValid:
  "used_rows n (SetValid data r) = used_rows n data - {r}"
  by (auto simp: used_rows_def)

lemma used_rows_le: "card (used_rows n data) \<le> n"
proof -
  have "used_rows n data \<subseteq> {..<n}" by (auto simp: used_rows_def)
  then have "card (used_rows n data) \<le> card {..<n}" by (intro card_mono) simp_all
  then show ?thesis by simp
qed

lemma used_rows_not_full:
  assumes "card (used_rows n data) < n"
  shows "\<exists>row < n. RowIsValid data row"
proof (rule ccontr)
  assume "\<not> ?thesis"
  then have "used_rows n data = {..<n}" by (auto simp: used_rows_def)
  then show False using assms by simp
qed

lemma used_rows_full:
  assumes "card (used_rows n data) = n" "row < n"
  shows "\<not> RowIsValid data row"
proof -
  have "used_rows n data \<subseteq> {..<n}" by (auto simp: used_rows_def)
  moreover have "card (used_rows n data) = card {..<n}" using assms(1) by simp
  ultimately have "used_rows n data = {..<n}" by (intro card_subset_eq) simp_all
  then show ?thesis using assms(2) by (auto simp: used_rows_def)
qed

lemma wf_buffer_fresh:
  "wf_buffer n (fresh_buffer\<lparr>validity := SetAllValid n\<rparr>)"
  by (simp add: wf_buffer_def used_rows_def fresh_buffer_def)

lemma wf_buffer_SetInvalid:
  assumes "wf_buffer n buf" "RowIsValid (validity buf) r"
  shows "wf_buffer n (buf\<lparr>validity := SetInvalid (validity buf) r, segment_count := segment_count buf + 1\<rparr>)"
proof -
  have r: "r < n" using assms by (simp add: wf_buffer_def)
  have "r \<notin> used_rows n (validity buf)" using assms(2) by (simp add: used_rows_def)
  then have "card (insert r (used_rows n (validity buf))) = segment_count buf + 1"
    using assms(1) by (simp add: wf_buffer_def)
  then show ?thesis
    using assms(1) r by (simp add: wf_buffer_def used_rows_SetInvalid)
qed

lemma wf_buffer_SetValid:
  assumes "wf_buffer n buf" "\<not> RowIsValid (validity buf) r" "r < n"
  shows "wf_buffer n (buf\<lparr>validity := SetValid (validity buf) r, segment_count := segment_count buf - 1\<rparr>)"
    and "0 < segment_count buf"
proof -
  have in_used: "r \<in> used_rows n (validity buf)" using assms(2,3) by (simp add: used_rows_def)
  then have "card (used_rows n (validity buf) - {r}) = segment_count buf - 1"
    using assms(1) by (simp add: wf_buffer_def)
  then show "wf_buffer n (buf\<lparr>validity := SetValid (validity buf) r, segment_count := segment_count buf - 1\<rparr>)"
    using assms(1,3) by (auto simp: wf_buffer_def used_rows_SetValid)
  have "used_rows n (validity buf) \<noteq> {}" using in_used by blast
  then have "0 < card (used_rows n (validity buf))" by (simp add: card_gt_0_iff)
  then show "0 < segment_count buf" using assms(1) by (simp add: wf_buffer_def)
qed

lemma wf_buffer_sc_le: "wf_buffer n buf \<Longrightarrow> segment_count buf \<le> n"
  using used_rows_le[of n "validity buf"] by (simp add: wf_buffer_def)

lemma segment_total_update:
  assumes "finite (dom bufs)" "bufs b = Some buf"
  shows "segment_total (bufs(b \<mapsto> buf')) + segment_count buf = segment_total bufs + segment_count buf'"
proof -
  have d: "dom (bufs(b \<mapsto> buf')) = dom bufs" using assms(2) by auto
  have b: "b \<in> dom bufs" using assms(2) by auto
  have "segment_total (bufs(b \<mapsto> buf')) =
      segment_count buf' + (\<Sum>x \<in> dom bufs - {b}. segment_count (the ((bufs(b \<mapsto> buf')) x)))"
    unfolding segment_total_def d using assms(1) b by (subst sum.remove[of _ b]) simp_all
  also have "(\<Sum>x \<in> dom bufs - {b}. segment_count (the ((bufs(b \<mapsto> buf')) x))) =
      (\<Sum>x \<in> dom bufs - {b}. segment_count (the (bufs x)))"
    by (rule sum.cong) simp_all
  finally have 1: "segment_total (bufs(b \<mapsto> buf')) =
      segment_count buf' + (\<Sum>x \<in> dom bufs - {b}. segment_count (the (bufs x)))" .
  have 2: "segment_total bufs = segment_count buf + (\<Sum>x \<in> dom bufs - {b}. segment_count (the (bufs x)))"
    unfolding segment_total_def using assms b by (subst sum.remove[of _ b]) simp_all
  show ?thesis using 1 2 by simp
qed

lemma segment_total_insert:
  assumes "finite (dom bufs)" "bufs b = None"
  shows "segment_total (bufs(b \<mapsto> buf')) = segment_total bufs + segment_count buf'"
proof -
  have nb: "b \<notin> dom bufs" using assms(2) by auto
  have "segment_total (bufs(b \<mapsto> buf')) =
      segment_count buf' + (\<Sum>x \<in> dom bufs. segment_count (the ((bufs(b \<mapsto> buf')) x)))"
    unfolding segment_total_def using assms(1) nb by simp
  also have "(\<Sum>x \<in> dom bufs. segment_count (the ((bufs(b \<mapsto> buf')) x))) =
      (\<Sum>x \<in> dom bufs. segment_count (the (bufs x)))"
    by (rule sum.cong) (use nb in auto)
  finally have "segment_total (bufs(b \<mapsto> buf')) =
      segment_count buf' + (\<Sum>x \<in> dom bufs. segment_count (the (bufs x)))" .
  also have "\<dots> = segment_total bufs + segment_count buf'"
    by (simp only: segment_total_def add.commute)
  finally show ?thesis .
qed

lemma segment_total_ge:
  assumes "finite (dom bufs)" "bufs b = Some buf"
  shows "segment_count buf \<le> segment_total bufs"
proof -
  have "b \<in> dom bufs" using assms(2) by auto
  then have "segment_count (the (bufs b)) \<le> segment_total bufs"
    unfolding segment_total_def using assms(1) by (intro member_le_sum) simp_all
  then show ?thesis using assms(2) by simp
qed

lemma GetOffset_Inr:
  assumes "GetOffset a data n = Inr (data', off)"
  shows "\<exists>r. data' = SetInvalid data r \<and> off = uint32 r \<and> RowIsValid data r"
proof (cases "RowIsValid data n")
  case True
  then show ?thesis using assms by (auto simp: GetOffset_def)
next
  case False
  then have sc: "scan_entries (bitmask_count a) data 0 = Inr (data', off)"
    using assms by (simp add: GetOffset_def)
  show ?thesis
  proof (cases "\<exists>row < 64 * bitmask_count a. RowIsValid data row")
    case True
    then obtain row where "RowIsValid data row" "row < 64 * bitmask_count a" by blast
    from scan_entries_spec(1,2)[OF this] sc show ?thesis by auto
  next
    case False
    then have "\<forall>row < 64 * bitmask_count a. \<not> RowIsValid data row" by blast
    from scan_entries_none[OF this, of 0] sc show ?thesis by simp
  qed
qed

lemma GetOffset_wf:
  assumes "wf_buffer M buf" "segment_count buf < M" "M \<le> 64 * bitmask_count a" "M \<le> 2 ^ 32"
  shows "\<exists>r. GetOffset a (validity buf) (segment_count buf) = Inr (SetInvalid (validity buf) r, r)
           \<and> RowIsValid (validity buf) r \<and> r < M"
proof (cases "RowIsValid (validity buf) (segment_count buf)")
  case True
  moreover have "uint32 (segment_count buf) = segment_count buf"
    using assms(2,4) by simp
  ultimately show ?thesis using assms(2) by (auto simp: GetOffset_fast)
next
  case False
  have "card (used_rows M (validity buf)) < M" using assms(1,2) by (simp add: wf_buffer_def)
  then obtain row where row: "row < M" "RowIsValid (validity buf) row"
    using used_rows_not_full by blast
  have r64: "row < 64 * bitmask_count a" using row(1) assms(3) by simp
  let ?r = "first_valid (validity buf)"
  have v: "RowIsValid (validity buf) ?r" and le: "?r \<le> row"
    using scan_entries_spec(2,3)[OF row(2) r64] by simp_all
  have "?r < M" using le row(1) by simp
  moreover have "uint32 ?r = ?r" using \<open>?r < M\<close> assms(4) by simp
  ultimately show ?thesis
    using GetOffset_slow[OF False row(2) r64] v by auto
qed

lemma GetOffset_full:
  assumes "wf_buffer M buf" "segment_count buf = M"
  shows "\<exists>e. GetOffset a (validity buf) (segment_count buf) = Inl e"
proof -
  have none: "\<not> RowIsValid (validity buf) row" for row
  proof (cases "row < M")
    case True
    then show ?thesis using used_rows_full[of M "validity buf" row] assms by (simp add: wf_buffer_def)
  next
    case False
    then show ?thesis using assms(1) by (auto simp: wf_buffer_def)
  qed
  then have "\<forall>row < 64 * bitmask_count a. \<not> RowIsValid (validity buf) row" by blast
  from scan_entries_none[OF this, of 0] show ?thesis
    using none by (simp add: GetOffset_def)
qed

lemma wf_after_alloc:
  assumes wf: "wf_allocator a" and b: "buffers a b = Some buf"
    and sc: "segment_count buf < available_segments_per_buffer a"
    and r: "RowIsValid (validity buf) r"
  shows "wf_allocator (after_alloc a b buf r)" and "live (after_alloc a b buf r) (IndexPointer b r)"
proof -
  let ?M = "available_segments_per_buffer a"
  let ?buf' = "buf\<lparr>validity := SetInvalid (validity buf) r, segment_count := segment_count buf + 1\<rparr>"
  let ?a' = "after_alloc a b buf r"
  have wfb: "wf_buffer ?M buf" using wf b by (simp add: wf_allocator_def)
  have rM: "r < ?M" using wfb r by (simp add: wf_buffer_def)
  have M32: "?M \<le> 2 ^ 32" using wf by (simp add: wf_allocator_def wf_config_def)
  have b32: "b < 2 ^ 32" using wf b by (auto simp: wf_allocator_def)
  have fin: "finite (dom (buffers a))" using wf by (simp add: wf_allocator_def)
  have d: "dom (buffers ?a') = dom (buffers a)" using b by (auto simp: after_alloc_def)
  have cfg: "wf_config ?a'" using wf by (simp add: wf_allocator_def wf_config_def after_alloc_def)
  have M': "available_segments_per_buffer ?a' = ?M" by (simp add: after_alloc_def)
  have bufs': "buffers ?a' = (buffers a)(b \<mapsto> ?buf')" by (simp add: after_alloc_def)
  have wfb': "wf_buffer ?M ?buf'" by (rule wf_buffer_SetInvalid[OF wfb r])
  have all: "\<forall>b' buf'. buffers ?a' b' = Some buf' \<longrightarrow> wf_buffer ?M buf'"
    using wf wfb' by (auto simp: bufs' wf_allocator_def)
  have bw: "buffers_with_free_space a =
         {b. \<exists>buf. buffers a b = Some buf \<and> segment_count buf < ?M}"
    using wf by (simp add: wf_allocator_def)
  have bw': "buffers_with_free_space ?a' =
         {b'. \<exists>buf'. buffers ?a' b' = Some buf' \<and> segment_count buf' < ?M}"
  proof (cases "segment_count buf + 1 = ?M")
    case True
    then have "buffers_with_free_space ?a' = buffers_with_free_space a - {b}"
      by (simp add: after_alloc_def)
    then show ?thesis using True by (auto simp: bw bufs')
  next
    case False
    then have lt: "segment_count buf + 1 < ?M" using sc by simp
    have "buffers_with_free_space ?a' = buffers_with_free_space a"
      using False by (simp add: after_alloc_def)
    then show ?thesis using lt b sc by (auto simp: bw bufs')
  qed
  have tot: "total_segment_count ?a' = segment_total (buffers ?a')"
  proof -
    have "total_segment_count a = segment_total (buffers a)" using wf by (simp add: wf_allocator_def)
    moreover have "segment_total ((buffers a)(b \<mapsto> ?buf')) + segment_count buf =
        segment_total (buffers a) + segment_count ?buf'"
      by (rule segment_total_update[OF fin b])
    ultimately show ?thesis by (simp add: after_alloc_def)
  qed
  show "wf_allocator ?a'"
    unfolding wf_allocator_def M' using cfg fin d wf all bw' tot
    by (simp add: wf_allocator_def)
  show "live ?a' (IndexPointer b r)"
    using IndexPointer_fields[OF b32, of r] rM M32
    by (simp add: live_def bufs' M')
qed

lemma New_existing_wf:
  assumes wf: "wf_allocator a" and ne: "buffers_with_free_space a \<noteq> {}"
  shows "\<exists>b buf r. buffers a b = Some buf \<and> segment_count buf < available_segments_per_buffer a
           \<and> RowIsValid (validity buf) r \<and> New a = Inr (after_alloc a b buf r, IndexPointer b r)"
proof -
  let ?M = "available_segments_per_buffer a"
  let ?b = "Min (buffers_with_free_space a)"
  have bw: "buffers_with_free_space a =
         {b. \<exists>buf. buffers a b = Some buf \<and> segment_count buf < ?M}"
    using wf by (simp add: wf_allocator_def)
  then have "buffers_with_free_space a \<subseteq> dom (buffers a)" by auto
  then have "finite (buffers_with_free_space a)"
    using wf by (auto simp: wf_allocator_def intro: finite_subset)
  then have "?b \<in> buffers_with_free_space a" using ne by (rule Min_in)
  then obtain buf where buf: "buffers a ?b = Some buf" "segment_count buf < ?M"
    using bw by auto
  have "?b < 2 ^ 32" using wf buf(1) by (auto simp: wf_allocator_def)
  then have u: "uint32 ?b = ?b" by simp
  have wfb: "wf_buffer ?M buf" using wf buf(1) by (simp add: wf_allocator_def)
  have "?M \<le> 64 * bitmask_count a" "?M \<le> 2 ^ 32"
    using wf by (simp_all add: wf_allocator_def wf_config_def)
  from GetOffset_wf[OF wfb buf(2) this] obtain r where
    r: "GetOffset a (validity buf) (segment_count buf) = Inr (SetInvalid (validity buf) r, r)"
      "RowIsValid (validity buf) r" by blast
  have "New a = Inr (after_alloc a ?b buf r, IndexPointer ?b r)"
    unfolding after_alloc_def by (rule New_existing[OF ne u buf(1) r(1)])
  then show ?thesis using buf r(2) by blast
qed

lemma add_buffer_wf:
  assumes wf: "wf_allocator a" and e: "buffers_with_free_space a = {}"
  shows "\<exists>r. add_buffer a = Inr (with_buffer a r) \<and> buffers a r = None \<and> r \<le> card (dom (buffers a))
           \<and> buffers_with_free_space (with_buffer a r) = {r}
           \<and> (r < 2 ^ 32 \<longrightarrow> wf_allocator (with_buffer a r))"
proof -
  let ?M = "available_segments_per_buffer a"
  have fin: "finite (dom (buffers a))" using wf by (simp add: wf_allocator_def)
  from GetAvailableBufferId_spec[OF fin] obtain r where
    r: "GetAvailableBufferId a = Inr r" "r \<le> card (dom (buffers a))" "buffers a r = None" by blast
  let ?buf = "fresh_buffer\<lparr>validity := SetAllValid ?M\<rparr>"
  have ab: "add_buffer a = Inr (with_buffer a r)"
    unfolding with_buffer_def by (rule add_buffer_spec[OF r(1,3)])
  have bw1: "buffers_with_free_space (with_buffer a r) = {r}" by (simp add: with_buffer_def e)
  have "wf_allocator (with_buffer a r)" if r32: "r < 2 ^ 32"
  proof -
    have cfg: "wf_config (with_buffer a r)"
      using wf by (simp add: wf_allocator_def wf_config_def with_buffer_def)
    have M1: "1 \<le> ?M" using wf by (simp add: wf_allocator_def wf_config_def)
    have sc0: "segment_count ?buf = 0" by (simp add: fresh_buffer_def)
    have bw: "{b. \<exists>buf. buffers a b = Some buf \<and> segment_count buf < ?M} = {}"
      using wf e by (simp add: wf_allocator_def)
    have "{b. \<exists>buf. ((buffers a)(r \<mapsto> ?buf)) b = Some buf \<and> segment_count buf < ?M} = {r}"
      using bw M1 sc0 by auto
    moreover have "segment_total ((buffers a)(r \<mapsto> ?buf)) = segment_total (buffers a)"
      using segment_total_insert[OF fin r(3), of ?buf] sc0 by simp
    moreover have "\<forall>b buf. ((buffers a)(r \<mapsto> ?buf)) b = Some buf \<longrightarrow> wf_buffer ?M buf"
      using wf wf_buffer_fresh[of ?M] by (auto simp: wf_allocator_def)
    ultimately show ?thesis
      unfolding wf_allocator_def using cfg fin wf r32 e
      by (simp add: with_buffer_def wf_allocator_def)
  qed
  then show ?thesis using ab r bw1 by blast
qed

lemma all_ids_taken:
  assumes "finite D" "\<forall>b \<in> D. b < (n :: nat)" "n \<le> card D" "k < n"
  shows "k \<in> D"
proof -
  have sub: "D \<subseteq> {..<n}" using assms(2) by auto
  then have "card D \<le> card {..<n}" by (intro card_mono) simp_all
  then have "card D = card {..<n}" using assms(3) by simp
  then have "D = {..<n}" using sub by (intro card_subset_eq) simp_all
  then show ?thesis using assms(4) by simp
qed

lemma New_exhausted:
  assumes wf: "wf_allocator a" and e: "buffers_with_free_space a = {}"
    and ab: "add_buffer a = Inr (with_buffer a r)" "buffers a r = None" "r \<le> card (dom (buffers a))"
    and big: "\<not> r < 2 ^ 32"
  shows "\<exists>e. New a = Inl e"
proof -
  let ?M = "available_segments_per_buffer a"
  let ?a1 = "with_buffer a r"
  have fin: "finite (dom (buffers a))" using wf by (simp add: wf_allocator_def)
  have ids: "\<forall>b \<in> dom (buffers a). b < (2 ^ 32 :: nat)" using wf by (simp add: wf_allocator_def)
  have "card (dom (buffers a)) \<le> card {..<(2 ^ 32 :: nat)}"
    using ids by (intro card_mono) auto
  then have "r \<le> 2 ^ 32" using ab(3) by simp
  then have r: "r = 2 ^ 32" using big by simp
  have "0 \<in> dom (buffers a)"
    by (rule all_ids_taken[OF fin ids]) (use ab(3) r in simp_all)
  then obtain buf0 where b0: "buffers a 0 = Some buf0" by auto
  have wfb: "wf_buffer ?M buf0" using wf b0 by (simp add: wf_allocator_def)
  have "0 \<notin> buffers_with_free_space a" using e by simp
  then have "\<not> segment_count buf0 < ?M" using wf b0 by (auto simp: wf_allocator_def)
  then have full: "segment_count buf0 = ?M" using wf_buffer_sc_le[OF wfb] by simp
  obtain err where g: "GetOffset ?a1 (validity buf0) (segment_count buf0) = Inl err"
    using GetOffset_full[OF wfb full] by blast
  have u: "uint32 (Min (buffers_with_free_space ?a1)) = 0"
    by (simp add: with_buffer_def e r uint32_def)
  have b1: "buffers ?a1 0 = Some buf0" using b0 r by (simp add: with_buffer_def)
  have "New a = Inl err"
    using e ab(1) u b1 g by (simp add: New_def Let_def with_buffer_def)
  then show ?thesis by blast
qed

lemma New_wf_detail:
  assumes wf: "wf_allocator a" and n: "New a = Inr (a', ptr)"
  shows "\<exists>a1 b buf r. wf_allocator a1 \<and> (a1 = a \<or> (\<exists>k. a1 = with_buffer a k \<and> buffers a k = None))
           \<and> buffers a1 b = Some buf
           \<and> segment_count buf < available_segments_per_buffer a1
           \<and> RowIsValid (validity buf) r \<and> a' = after_alloc a1 b buf r \<and> ptr = IndexPointer b r"
proof (cases "buffers_with_free_space a = {}")
  case False
  from New_existing_wf[OF wf False] n wf show ?thesis by auto
next
  case True
  from add_buffer_wf[OF wf True] obtain k where
    k: "add_buffer a = Inr (with_buffer a k)" "buffers a k = None" "k \<le> card (dom (buffers a))"
      "buffers_with_free_space (with_buffer a k) = {k}"
      "k < 2 ^ 32 \<longrightarrow> wf_allocator (with_buffer a k)" by blast
  have "k < 2 ^ 32"
  proof (rule ccontr)
    assume "\<not> k < 2 ^ 32"
    from New_exhausted[OF wf True k(1,2,3) this] n show False by simp
  qed
  then have wf1: "wf_allocator (with_buffer a k)" using k(5) by simp
  have ne1: "buffers_with_free_space (with_buffer a k) \<noteq> {}" using k(4) by simp
  have "New a = New (with_buffer a k)"
    by (rule New_fresh[OF True k(1) refl ne1])
  with New_existing_wf[OF wf1 ne1] n k(2) wf1 show ?thesis by auto
qed

lemma config_after_alloc [simp]:
  "available_segments_per_buffer (after_alloc a b buf r) = available_segments_per_buffer a"
  "bitmask_count (after_alloc a b buf r) = bitmask_count a"
  "segment_size (after_alloc a b buf r) = segment_size a"
  "bitmask_offset (after_alloc a b buf r) = bitmask_offset a"
  by (simp_all add: after_alloc_def)

lemma config_with_buffer [simp]:
  "available_segments_per_buffer (with_buffer a k) = available_segments_per_buffer a"
  "bitmask_count (with_buffer a k) = bitmask_count a"
  "segment_size (with_buffer a k) = segment_size a"
  "bitmask_offset (with_buffer a k) = bitmask_offset a"
  by (simp_all add: with_buffer_def)

lemma New_wf:
  assumes "wf_allocator a" "New a = Inr (a', ptr)"
  shows "wf_allocator a'" "live a' ptr"
    "available_segments_per_buffer a' = available_segments_per_buffer a"
    "bitmask_count a' = bitmask_count a" "segment_size a' = segment_size a"
    "bitmask_offset a' = bitmask_offset a"
proof -
  from New_wf_detail[OF assms] obtain a1 b buf r where
    d: "wf_allocator a1" "a1 = a \<or> (\<exists>k. a1 = with_buffer a k \<and> buffers a k = None)"
      "buffers a1 b = Some buf" "segment_count buf < available_segments_per_buffer a1"
      "RowIsValid (validity buf) r" "a' = after_alloc a1 b buf r" "ptr = IndexPointer b r" by blast
  show "wf_allocator a'" "live a' ptr"
    using wf_after_alloc[OF d(1,3,4,5)] d(6,7) by simp_all
  show "available_segments_per_buffer a' = available_segments_per_buffer a"
    "bitmask_count a' = bitmask_count a" "segment_size a' = segment_size a"
    "bitmask_offset a' = bitmask_offset a"
    using d(2,6) by auto
qed

lemma New_succeeds:
  assumes wf: "wf_allocator a"
    and room: "buffers_with_free_space a \<noteq> {} \<or> card (dom (buffers a)) < 2 ^ 32"
  shows "\<exists>a' ptr. New a = Inr (a', ptr)"
proof (cases "buffers_with_free_space a = {}")
  case False
  from New_existing_wf[OF wf False] show ?thesis by blast
next
  case True
  from add_buffer_wf[OF wf True] obtain k where
    k: "add_buffer a = Inr (with_buffer a k)" "buffers a k = None" "k \<le> card (dom (buffers a))"
      "buffers_with_free_space (with_buffer a k) = {k}"
      "k < 2 ^ 32 \<longrightarrow> wf_allocator (with_buffer a k)" by blast
  have "k < 2 ^ 32" using k(3) room True by simp
  then have wf1: "wf_allocator (with_buffer a k)" using k(5) by simp
  have ne1: "buffers_with_free_space (with_buffer a k) \<noteq> {}" using k(4) by simp
  have "New a = New (with_buffer a k)"
    by (rule New_fresh[OF True k(1) refl ne1])
  with New_existing_wf[OF wf1 ne1] show ?thesis by auto
qed

lemma Free_already_free:
  assumes "buffers a (GetBufferId ptr) = Some buf" "RowIsValid (validity buf) (PointerGetOffset ptr)"
  shows "Free a ptr = Inl assertion_failed"
  using assms by (simp add: Free_def Let_def)

lemma Free_spec:
  assumes "buffers a (GetBufferId ptr) = Some buf" "\<not> RowIsValid (validity buf) (PointerGetOffset ptr)"
    "0 < total_segment_count a" "0 < segment_count buf"
  shows "Free a ptr = Inr (after_free a (GetBufferId ptr) buf (PointerGetOffset ptr))"
  using assms by (simp add: Free_def Let_def after_free_def)

lemma config_after_free [simp]:
  "available_segments_per_buffer (after_free a b buf off) = available_segments_per_buffer a"
  "bitmask_count (after_free a b buf off) = bitmask_count a"
  "segment_size (after_free a b buf off) = segment_size a"
  "bitmask_offset (after_free a b buf off) = bitmask_offset a"
  by (simp_all add: after_free_def)

lemma Free_live:
  assumes wf: "wf_allocator a" and l: "live a ptr"
  shows "\<exists>buf. buffers a (GetBufferId ptr) = Some buf
           \<and> \<not> RowIsValid (validity buf) (PointerGetOffset ptr)
           \<and> 0 < segment_count buf \<and> 0 < total_segment_count a
           \<and> Free a ptr = Inr (after_free a (GetBufferId ptr) buf (PointerGetOffset ptr))
           \<and> wf_allocator (after_free a (GetBufferId ptr) buf (PointerGetOffset ptr))"
proof -
  let ?M = "available_segments_per_buffer a"
  let ?b = "GetBufferId ptr" and ?off = "PointerGetOffset ptr"
  obtain buf where buf: "buffers a ?b = Some buf" "?off < ?M" "\<not> RowIsValid (validity buf) ?off"
    using l by (auto simp: live_def split: option.splits)
  let ?buf' = "buf\<lparr>validity := SetValid (validity buf) ?off, segment_count := segment_count buf - 1\<rparr>"
  let ?a' = "after_free a ?b buf ?off"
  have wfb: "wf_buffer ?M buf" using wf buf(1) by (simp add: wf_allocator_def)
  have wfb': "wf_buffer ?M ?buf'" and sc: "0 < segment_count buf"
    using wf_buffer_SetValid[OF wfb buf(3,2)] by simp_all
  have fin: "finite (dom (buffers a))" using wf by (simp add: wf_allocator_def)
  have tot: "total_segment_count a = segment_total (buffers a)" using wf by (simp add: wf_allocator_def)
  have "segment_count buf \<le> segment_total (buffers a)" by (rule segment_total_ge[OF fin buf(1)])
  then have tpos: "0 < total_segment_count a" using sc tot by simp
  have fr: "Free a ptr = Inr ?a'" by (rule Free_spec[OF buf(1,3) tpos sc])
  have bufs': "buffers ?a' = (buffers a)(?b \<mapsto> ?buf')" by (simp add: after_free_def)
  have d: "dom (buffers ?a') = dom (buffers a)" using buf(1) by (auto simp: bufs')
  have cfg: "wf_config ?a'" using wf by (simp add: wf_allocator_def wf_config_def after_free_def)
  have le: "segment_count buf \<le> ?M" by (rule wf_buffer_sc_le[OF wfb])
  have bw: "buffers_with_free_space a =
         {b. \<exists>buf. buffers a b = Some buf \<and> segment_count buf < ?M}"
    using wf by (simp add: wf_allocator_def)
  have bw': "buffers_with_free_space ?a' =
         {b'. \<exists>buf'. buffers ?a' b' = Some buf' \<and> segment_count buf' < ?M}"
  proof -
    have "buffers_with_free_space ?a' = insert ?b (buffers_with_free_space a)"
      by (simp add: after_free_def)
    moreover have "segment_count ?buf' < ?M" using le sc by simp
    ultimately show ?thesis by (auto simp: bw bufs')
  qed
  have all: "\<forall>b' buf'. buffers ?a' b' = Some buf' \<longrightarrow> wf_buffer ?M buf'"
    using wf wfb' by (auto simp: bufs' wf_allocator_def)
  have tot': "total_segment_count ?a' = segment_total (buffers ?a')"
  proof -
    have "segment_total ((buffers a)(?b \<mapsto> ?buf')) + segment_count buf =
        segment_total (buffers a) + segment_count ?buf'"
      by (rule segment_total_update[OF fin buf(1)])
    then have "segment_total ((buffers a)(?b \<mapsto> ?buf')) = segment_total (buffers a) - 1"
      using sc by simp
    then show ?thesis using tot by (simp add: after_free_def)
  qed
  have "wf_allocator ?a'"
    unfolding wf_allocator_def using cfg fin d wf all bw' tot'
    by (simp add: wf_allocator_def)
  then show ?thesis using buf(1,3) sc tpos fr by blast
qed

lemma wf_ctor:
  assumes "FixedSizeAllocator_ctor BLOCK_SIZE s = Some (Inr a)"
  shows "wf_allocator a"
proof -
  have p: "1 \<le> available_segments_per_buffer a"
    "available_segments_per_buffer a \<le> 64 * bitmask_count a"
    "available_segments_per_buffer a \<le> BLOCK_SIZE + 64"
    "total_segment_count a = 0" "buffers a = Map.empty" "buffers_with_free_space a = {}"
    using ctor_Inr_props[OF assms] by (simp_all add: BLOCK_SIZE_def)
  have "available_segments_per_buffer a \<le> 2 ^ 32" using p(3) by (simp add: BLOCK_SIZE_def)
  then show ?thesis
    using p by (simp add: wf_allocator_def wf_config_def segment_total_def)
qed

lemma reachable_wf:
  assumes "reachable a0 a" "wf_allocator a0"
  shows "wf_allocator a"
  using assms
proof (induction rule: reachable.induct)
  case start
  then show ?case by simp
next
  case (new a a' ptr)
  then show ?case using New_wf(1) by blast
next
  case (free a ptr a')
  then have "wf_allocator a" by simp
  from Free_live[OF this free.hyps(2)] free.hyps(3) show ?case by auto
qed

lemma reachable_config:
  assumes "reachable a0 a" "wf_allocator a0"
  shows "available_segments_per_buffer a = available_segments_per_buffer a0
       \<and> bitmask_count a = bitmask_count a0 \<and> segment_size a = segment_size a0
       \<and> bitmask_offset a = bitmask_offset a0"
  using assms
proof (induction rule: reachable.induct)
  case start
  then show ?case by simp
next
  case (new a a' ptr)
  have "wf_allocator a" using reachable_wf[OF new.hyps(1) new.prems] .
  from New_wf(3,4,5,6)[OF this new.hyps(2)] new.IH[OF new.prems] show ?case by simp
next
  case (free a ptr a')
  have "wf_allocator a" using reachable_wf[OF free.hyps(1) free.prems] .
  from Free_live[OF this free.hyps(2)] free.hyps(3) free.IH[OF free.prems] show ?case by auto
qed

text \<open>
  Claim C4.  In every state that a finite sequence of \<open>New\<close> calls and of \<open>Free\<close> calls on
  live pointers reaches from a freshly constructed allocator, \<open>buffers_with_free_space\<close>
  contains exactly the ids \<open>b\<close> that are keys of \<open>buffers\<close> with
  \<open>buffers[b].segment_count < available_segments_per_buffer\<close>.
\<close>

theorem free_space_invariant:
  assumes "FixedSizeAllocator_ctor BLOCK_SIZE s = Some (Inr a0)" "reachable a0 a"
  shows "buffers_with_free_space a =
           {b. \<exists>buf. buffers a b = Some buf \<and> segment_count buf < available_segments_per_buffer a}"
  using reachable_wf[OF assms(2) wf_ctor[OF assms(1)]] by (simp add: wf_allocator_def)

theorem free_space_invariant_witness:
  "\<exists>a1 ptr a2. New largest_segment_allocator = Inr (a1, ptr) \<and> Free a1 ptr = Inr a2
     \<and> buffers_with_free_space a1 =
         {b. \<exists>buf. buffers a1 b = Some buf \<and> segment_count buf < available_segments_per_buffer a1}
     \<and> buffers_with_free_space a2 =
         {b. \<exists>buf. buffers a2 b = Some buf \<and> segment_count buf < available_segments_per_buffer a2}"
proof -
  let ?A = largest_segment_allocator
  have wf: "wf_allocator ?A" by (rule wf_ctor[OF ctor_largest_segment])
  have "card (dom (buffers ?A)) < 2 ^ 32" by (simp add: largest_segment_allocator_def)
  then obtain a1 ptr where n: "New ?A = Inr (a1, ptr)" using New_succeeds[OF wf] by blast
  have r1: "reachable ?A a1" by (rule reachable.new[OF reachable.start n])
  have l: "live a1 ptr" and wf1: "wf_allocator a1" using New_wf(1,2)[OF wf n] by simp_all
  obtain a2 where f: "Free a1 ptr = Inr a2" using Free_live[OF wf1 l] by blast
  have r2: "reachable ?A a2" by (rule reachable.free[OF r1 l f])
  show ?thesis
    using free_space_invariant[OF ctor_largest_segment r1]
      free_space_invariant[OF ctor_largest_segment r2] n f by blast
qed

text \<open>
  Claim C8.  In every allocator state, \<open>Free\<close> of a pointer whose row is valid (the slot
  is free already) fails with the internal error of the violated assertion.  In every
  state reached from a freshly constructed allocator, \<open>Free\<close> of a live pointer succeeds:
  it sets the row valid, inserts the buffer id into \<open>buffers_with_free_space\<close>, decrements
  \<open>total_segment_count\<close> and the buffer's \<open>segment_count\<close> by one, and leaves the other
  buffers as they are.
\<close>

theorem Free_contract:
  "(\<forall>buf. buffers a (GetBufferId ptr) = Some buf \<and> RowIsValid (validity buf) (PointerGetOffset ptr)
       \<longrightarrow> Free a ptr = Inl assertion_failed)
   \<and> (\<forall>s a0. FixedSizeAllocator_ctor BLOCK_SIZE s = Some (Inr a0) \<and> reachable a0 a \<and> live a ptr \<longrightarrow>
        (\<exists>buf a' buf'. buffers a (GetBufferId ptr) = Some buf \<and> Free a ptr = Inr a'
           \<and> buffers a' (GetBufferId ptr) = Some buf'
           \<and> validity buf' = SetValid (validity buf) (PointerGetOffset ptr)
           \<and> RowIsValid (validity buf') (PointerGetOffset ptr)
           \<and> buffers_with_free_space a' = insert (GetBufferId ptr) (buffers_with_free_space a)
           \<and> total_segment_count a' + 1 = total_segment_count a
           \<and> segment_count buf' + 1 = segment_count buf
           \<and> (\<forall>b. b \<noteq> GetBufferId ptr \<longrightarrow> buffers a' b = buffers a b)))"
proof (intro conjI allI impI)
  fix buf
  assume "buffers a (GetBufferId ptr) = Some buf \<and> RowIsValid (validity buf) (PointerGetOffset ptr)"
  then show "Free a ptr = Inl assertion_failed" using Free_already_free by blast
next
  fix s a0
  assume h: "FixedSizeAllocator_ctor BLOCK_SIZE s = Some (Inr a0) \<and> reachable a0 a \<and> live a ptr"
  then have wf: "wf_allocator a" using reachable_wf wf_ctor by blast
  let ?b = "GetBufferId ptr" and ?off = "PointerGetOffset ptr"
  from Free_live[OF wf] h obtain buf where
    buf: "buffers a ?b = Some buf" "0 < segment_count buf" "0 < total_segment_count a"
      "Free a ptr = Inr (after_free a ?b buf ?off)" by blast
  let ?buf' = "buf\<lparr>validity := SetValid (validity buf) ?off, segment_count := segment_count buf - 1\<rparr>"
  have "buffers (after_free a ?b buf ?off) ?b = Some ?buf'" by (simp add: after_free_def)
  moreover have "validity ?buf' = SetValid (validity buf) ?off" by simp
  moreover have "RowIsValid (validity ?buf') ?off" by simp
  moreover have "buffers_with_free_space (after_free a ?b buf ?off) = insert ?b (buffers_with_free_space a)"
    by (simp add: after_free_def)
  moreover have "total_segment_count (after_free a ?b buf ?off) + 1 = total_segment_count a"
    using buf(3) by (simp add: after_free_def)
  moreover have "segment_count ?buf' + 1 = segment_count buf" using buf(2) by simp
  moreover have "\<forall>b. b \<noteq> ?b \<longrightarrow> buffers (after_free a ?b buf ?off) b = buffers a b"
    by (simp add: after_free_def)
  ultimately show "\<exists>buf a' buf'. buffers a ?b = Some buf \<and> Free a ptr = Inr a'
           \<and> buffers a' ?b = Some buf'
           \<and> validity buf' = SetValid (validity buf) ?off
           \<and> RowIsValid (validity buf') ?off
           \<and> buffers_with_free_space a' = insert ?b (buffers_with_free_space a)
           \<and> total_segment_count a' + 1 = total_segment_count a
           \<and> segment_count buf' + 1 = segment_count buf
           \<and> (\<forall>b. b \<noteq> ?b \<longrightarrow> buffers a' b = buffers a b)"
    using buf(1,4) by blast
qed

theorem Free_contract_witness:
  "\<exists>a1 ptr a2. New largest_segment_allocator = Inr (a1, ptr) \<and> Free a1 ptr = Inr a2
     \<and> total_segment_count a2 + 1 = total_segment_count a1
     \<and> Free a2 ptr = Inl assertion_failed"
proof -
  let ?A = largest_segment_allocator
  have wf: "wf_allocator ?A" by (rule wf_ctor[OF ctor_largest_segment])
  have "card (dom (buffers ?A)) < 2 ^ 32" by (simp add: largest_segment_allocator_def)
  then obtain a1 ptr where n: "New ?A = Inr (a1, ptr)" using New_succeeds[OF wf] by blast
  have r1: "reachable ?A a1" by (rule reachable.new[OF reachable.start n])
  have l: "live a1 ptr" using New_wf(2)[OF wf n] .
  from Free_contract[of a1 ptr] ctor_largest_segment r1 l obtain a2 buf' where
    a2: "Free a1 ptr = Inr a2" "buffers a2 (GetBufferId ptr) = Some buf'"
      "RowIsValid (validity buf') (PointerGetOffset ptr)"
      "total_segment_count a2 + 1 = total_segment_count a1" by blast
  from Free_contract[of a2 ptr] a2(2,3) have "Free a2 ptr = Inl assertion_failed" by blast
  then show ?thesis using n a2(1,4) by blast
qed

section \<open>\<open>Merge\<close>\<close>

lemma upper_bound_step_max:
  "k + 1 < 2 ^ 64 \<Longrightarrow> upper_bound_step k u = max u (k + 1)"
  by (simp add: upper_bound_step_def max_def add64_small)

lemma fold_upper_bound_step:
  assumes "\<forall>k \<in> set ks. k + 1 < 2 ^ 64"
  shows "fold upper_bound_step ks u = Max (insert u ((\<lambda>k. k + 1) ` set ks))"
  using assms
proof (induction ks arbitrary: u)
  case Nil
  then show ?case by simp
next
  case (Cons k ks)
  have k: "k + 1 < 2 ^ 64" and ks: "\<forall>k \<in> set ks. k + 1 < 2 ^ 64" using Cons.prems by simp_all
  have "fold upper_bound_step (k # ks) u = fold upper_bound_step ks (upper_bound_step k u)"
    by simp
  also have "\<dots> = Max (insert (upper_bound_step k u) ((\<lambda>k. k + 1) ` set ks))"
    by (rule Cons.IH[OF ks])
  also have "\<dots> = Max (insert (max u (k + 1)) ((\<lambda>k. k + 1) ` set ks))"
    by (simp only: upper_bound_step_max[OF k])
  also have "\<dots> = Max (insert u (insert (k + 1) ((\<lambda>k. k + 1) ` set ks)))"
  proof (cases "set ks = {}")
    case True
    then show ?thesis by (simp add: max.commute)
  next
    case False
    then show ?thesis by (simp add: max.assoc)
  qed
  finally show ?case by simp
qed

lemma upper_bound_loop_any_order:
  assumes "set ks = set ks'" "\<forall>k \<in> set ks. k + 1 < 2 ^ 64"
  shows "fold upper_bound_step ks u = fold upper_bound_step ks' u"
proof -
  have "\<forall>k \<in> set ks'. k + 1 < 2 ^ 64" using assms by simp
  then show ?thesis using assms by (simp add: fold_upper_bound_step)
qed

lemma ids_finite:
  fixes D :: "nat set"
  assumes "\<forall>b \<in> D. b + u < n"
  shows "finite D"
proof -
  have "D \<subseteq> {..<n}" using assms by auto
  then show ?thesis by (rule finite_subset) simp
qed

lemma GetUpperBoundBufferId_spec:
  assumes "\<forall>b \<in> dom (buffers a). b + 1 < 2 ^ 64"
  shows "GetUpperBoundBufferId a = (if dom (buffers a) = {} then 0 else Max (dom (buffers a)) + 1)"
proof (cases "dom (buffers a) = {}")
  case True
  then show ?thesis by (simp add: GetUpperBoundBufferId_def)
next
  case False
  let ?D = "dom (buffers a)"
  have fin: "finite ?D" using assms by (rule ids_finite)
  have "\<forall>k \<in> set (sorted_list_of_set ?D). k + 1 < 2 ^ 64" using assms fin by simp
  then have "GetUpperBoundBufferId a = Max (insert 0 ((\<lambda>k. k + 1) ` set (sorted_list_of_set ?D)))"
    unfolding GetUpperBoundBufferId_def by (rule fold_upper_bound_step)
  also have "\<dots> = Max (insert 0 ((\<lambda>k. k + 1) ` ?D))" using fin by simp
  also have "\<dots> = Max ((\<lambda>k. k + 1) ` ?D)"
    using fin False by (subst Max_insert) simp_all
  also have "\<dots> = Max ?D + 1"
    using fin False by (intro mono_Max_commute[symmetric]) (auto simp: mono_def)
  finally show ?thesis using False by simp
qed

lemma GetUpperBoundBufferId_above:
  assumes "\<forall>b \<in> dom (buffers a). b + 1 < 2 ^ 64" "b \<in> dom (buffers a)"
  shows "b < GetUpperBoundBufferId a"
proof -
  have fin: "finite (dom (buffers a))" using assms(1) by (rule ids_finite)
  have "b \<le> Max (dom (buffers a))" using fin assms(2) by simp
  moreover have "dom (buffers a) \<noteq> {}" using assms(2) by blast
  ultimately show ?thesis using assms(1) by (simp add: GetUpperBoundBufferId_spec)
qed

lemma fold_map_insert:
  assumes "distinct ks" "\<forall>k \<in> set ks. m (k + u) = None"
  shows "fold (\<lambda>k m. map_insert m (k + u) (f k)) ks m =
           (\<lambda>x. if u \<le> x \<and> x - u \<in> set ks then Some (f (x - u)) else m x)"
  using assms
proof (induction ks arbitrary: m)
  case Nil
  then show ?case by simp
next
  case (Cons k ks)
  let ?m1 = "map_insert m (k + u) (f k)"
  have m1: "?m1 = m(k + u \<mapsto> f k)" using Cons.prems(2) by (simp add: map_insert_def)
  have "\<forall>k' \<in> set ks. ?m1 (k' + u) = None"
    using Cons.prems by (auto simp: m1)
  moreover have "distinct ks" using Cons.prems(1) by simp
  ultimately have "fold (\<lambda>k m. map_insert m (k + u) (f k)) ks ?m1 =
           (\<lambda>x. if u \<le> x \<and> x - u \<in> set ks then Some (f (x - u)) else ?m1 x)"
    by (rule Cons.IH[rotated])
  then show ?case
    using Cons.prems(1) by (auto simp: m1 fun_eq_iff)
qed

lemma fold_insert_shift:
  "fold (\<lambda>k s. insert (k + u) s) ks s = s \<union> (\<lambda>k. k + u) ` set ks"
  by (induction ks arbitrary: s) auto

text \<open>As long as no sum leaves the range of \<open>idx_t\<close>, the wrapping sums are the plain ones.\<close>

lemma fold_map_insert_add64:
  assumes "\<forall>k \<in> set ks. k + u < 2 ^ 64"
  shows "fold (\<lambda>k m. map_insert m (add64 k u) (f k)) ks m =
         fold (\<lambda>k m. map_insert m (k + u) (f k)) ks m"
proof (rule fold_cong[OF refl refl])
  fix k assume "k \<in> set ks"
  then have "add64 k u = k + u" using assms by (simp add: add64_small)
  then show "(\<lambda>m. map_insert m (add64 k u) (f k)) = (\<lambda>m. map_insert m (k + u) (f k))" by simp
qed

lemma fold_insert_add64:
  assumes "\<forall>k \<in> set ks. k + u < 2 ^ 64"
  shows "fold (\<lambda>k s. insert (add64 k u) s) ks s = fold (\<lambda>k s. insert (k + u) s) ks s"
proof (rule fold_cong[OF refl refl])
  fix k assume "k \<in> set ks"
  then have "add64 k u = k + u" using assms by (simp add: add64_small)
  then show "(\<lambda>s. insert (add64 k u) s) = (\<lambda>s. insert (k + u) s)" by simp
qed

lemma Merge_spec:
  assumes eq: "segment_size a = segment_size other"
    and ra: "\<forall>b \<in> dom (buffers a). b + 1 < 2 ^ 64"
    and ro: "\<forall>b \<in> dom (buffers other). b + GetUpperBoundBufferId a < 2 ^ 64"
    and rf: "\<forall>b \<in> buffers_with_free_space other. b + GetUpperBoundBufferId a < 2 ^ 64"
    and rt: "total_segment_count a + total_segment_count other < 2 ^ 64"
  shows "Merge a other =
     Inr (a\<lparr>buffers := (\<lambda>x. if GetUpperBoundBufferId a \<le> x \<and> x - GetUpperBoundBufferId a \<in> dom (buffers other)
                          then buffers other (x - GetUpperBoundBufferId a) else buffers a x),
            buffers_with_free_space := buffers_with_free_space a
               \<union> (\<lambda>k. k + GetUpperBoundBufferId a) ` buffers_with_free_space other,
            total_segment_count := total_segment_count a + total_segment_count other\<rparr>,
          other\<lparr>buffers := Map.empty, buffers_with_free_space := {}\<rparr>)"
proof -
  let ?u = "GetUpperBoundBufferId a"
  let ?ks = "sorted_list_of_set (dom (buffers other))"
  let ?fs = "sorted_list_of_set (buffers_with_free_space other)"
  have fo: "finite (dom (buffers other))" using ro by (rule ids_finite)
  have ff: "finite (buffers_with_free_space other)" using rf by (rule ids_finite)
  have ks: "\<forall>k \<in> set ?ks. k + ?u < 2 ^ 64" using ro fo by simp
  have fs: "\<forall>k \<in> set ?fs. k + ?u < 2 ^ 64" using rf ff by simp
  have none: "\<forall>k \<in> set ?ks. buffers a (k + ?u) = None"
  proof
    fix k assume "k \<in> set ?ks"
    show "buffers a (k + ?u) = None"
    proof (rule ccontr)
      assume "buffers a (k + ?u) \<noteq> None"
      then have "k + ?u \<in> dom (buffers a)" by auto
      from GetUpperBoundBufferId_above[OF ra this] show False by simp
    qed
  qed
  have "fold (\<lambda>k m. map_insert m (add64 k ?u) (the (buffers other k))) ?ks (buffers a) =
        fold (\<lambda>k m. map_insert m (k + ?u) (the (buffers other k))) ?ks (buffers a)"
    by (rule fold_map_insert_add64[OF ks])
  also have "\<dots> =
      (\<lambda>x. if ?u \<le> x \<and> x - ?u \<in> set ?ks then Some (the (buffers other (x - ?u))) else buffers a x)"
    by (rule fold_map_insert) (use none in simp_all)
  also have "\<dots> = (\<lambda>x. if ?u \<le> x \<and> x - ?u \<in> dom (buffers other)
                          then buffers other (x - ?u) else buffers a x)"
    using fo by (auto simp: fun_eq_iff)
  finally have b: "fold (\<lambda>k m. map_insert m (add64 k ?u) (the (buffers other k))) ?ks (buffers a) =
      (\<lambda>x. if ?u \<le> x \<and> x - ?u \<in> dom (buffers other)
                          then buffers other (x - ?u) else buffers a x)" .
  have "fold (\<lambda>k s. insert (add64 k ?u) s) ?fs (buffers_with_free_space a) =
        fold (\<lambda>k s. insert (k + ?u) s) ?fs (buffers_with_free_space a)"
    by (rule fold_insert_add64[OF fs])
  also have "\<dots> = buffers_with_free_space a \<union> (\<lambda>k. k + ?u) ` buffers_with_free_space other"
    using ff by (simp add: fold_insert_shift)
  finally have f: "fold (\<lambda>k s. insert (add64 k ?u) s) ?fs (buffers_with_free_space a) =
      buffers_with_free_space a \<union> (\<lambda>k. k + ?u) ` buffers_with_free_space other" .
  have t: "add64 (total_segment_count a) (total_segment_count other) =
      total_segment_count a + total_segment_count other"
    using rt by (rule add64_small)
  show ?thesis
    using eq by (simp add: Merge_def Let_def b f t)
qed

text \<open>
  With an id \<open>2^64 - 1\<close> in \<open>self\<close> the upper bound wraps to 0, and a buffer of \<open>other\<close>
  whose shifted id is taken in \<open>self\<close> is not inserted.
\<close>

lemma GetUpperBoundBufferId_wraps: "GetUpperBoundBufferId (last_id_allocator buf) = 0"
  by (simp add: GetUpperBoundBufferId_def last_id_allocator_def upper_bound_step_def add64_def)

lemma Merge_wraps:
  "Merge (last_id_allocator buf) (last_id_allocator buf') =
     Inr (last_id_allocator buf, largest_segment_allocator)"
  by (simp add: Merge_def GetUpperBoundBufferId_wraps Let_def)
     (simp add: last_id_allocator_def largest_segment_allocator_def add64_def map_insert_def)

subsection \<open>Two allocators of segment size 8000\<close>

lemma ctor_8000: "FixedSizeAllocator_ctor BLOCK_SIZE 8000 = Some (Inr allocator_8000)"
  by (simp add: FixedSizeAllocator_ctor_def BLOCK_SIZE_def segments_loop.simps
      add64_def sub64_def mul64_def Let_def allocator_8000_def)

lemma New_allocator_8000: "New allocator_8000 = Inr (one_segment_8000, IndexPointer 0 0)"
proof -
  have "New allocator_8000 =
      Inr (one_buffer allocator_8000 (SetInvalid (SetAllValid (available_segments_per_buffer allocator_8000)) 0) 1,
           IndexPointer 0 0)"
    by (rule New_one_buffer_first) (simp_all add: allocator_8000_def)
  then show ?thesis by (simp add: one_segment_8000_def) (simp add: allocator_8000_def)
qed

lemma New_one_segment_8000: "New one_segment_8000 = Inr (two_segments_8000, IndexPointer 0 1)"
proof -
  have "New (one_buffer allocator_8000 (SetInvalid (SetAllValid 32) 0) 1) =
      Inr (one_buffer allocator_8000 (SetInvalid (SetInvalid (SetAllValid 32) 0) 1) (1 + 1), IndexPointer 0 1)"
    by (rule New_one_buffer_fast) (simp_all add: allocator_8000_def)
  then show ?thesis unfolding one_segment_8000_def two_segments_8000_def by (simp only: one_add_one)
qed

lemma segments_8000_fields:
  "segment_size two_segments_8000 = segment_size one_segment_8000"
  "dom (buffers two_segments_8000) = {0}" "dom (buffers one_segment_8000) = {0}"
  "buffers_with_free_space two_segments_8000 = {0}" "buffers_with_free_space one_segment_8000 = {0}"
  "total_segment_count two_segments_8000 = 2" "total_segment_count one_segment_8000 = 1"
  by (simp_all add: one_segment_8000_def two_segments_8000_def) (simp_all add: one_buffer_def)

lemma upper_two_segments_8000: "GetUpperBoundBufferId two_segments_8000 = 1"
  by (subst GetUpperBoundBufferId_spec) (simp_all add: segments_8000_fields)

lemma Merge_8000:
  "Merge two_segments_8000 one_segment_8000 =
     Inr (merged_8000, one_segment_8000\<lparr>buffers := Map.empty, buffers_with_free_space := {}\<rparr>)"
proof -
  note m = Merge_spec[of two_segments_8000 one_segment_8000, unfolded upper_two_segments_8000 segments_8000_fields]
  have "Merge two_segments_8000 one_segment_8000 =
     Inr (two_segments_8000\<lparr>buffers := (\<lambda>x. if 1 \<le> x \<and> x - 1 \<in> {0}
                          then buffers one_segment_8000 (x - 1) else buffers two_segments_8000 x),
            buffers_with_free_space := {0} \<union> (\<lambda>k. k + 1) ` {0},
            total_segment_count := 2 + 1\<rparr>,
          one_segment_8000\<lparr>buffers := Map.empty, buffers_with_free_space := {}\<rparr>)"
    by (rule m) simp_all
  moreover have "two_segments_8000\<lparr>buffers := (\<lambda>x. if 1 \<le> x \<and> x - 1 \<in> {0}
                          then buffers one_segment_8000 (x - 1) else buffers two_segments_8000 x),
            buffers_with_free_space := {0} \<union> (\<lambda>k. k + 1) ` {0},
            total_segment_count := 2 + 1\<rparr> = merged_8000"
    by (auto simp: merged_8000_def two_segments_8000_def one_segment_8000_def one_buffer_def
        allocator_8000_def fun_eq_iff)
  ultimately show ?thesis by simp
qed

text \<open>
  Claim C7, as the code has it.  Let \<open>self\<close> and \<open>other\<close> be allocators of equal segment
  size and \<open>upper\<close> one more than the largest key of \<open>self.buffers\<close> (0 when there is
  none), and let no sum leave the range of \<open>idx_t\<close>: every id of \<open>self\<close> plus one, every id
  of \<open>other.buffers\<close> and of \<open>other.buffers_with_free_space\<close> plus \<open>upper\<close>, and the sum of
  the two segment totals are below \<open>2^64\<close>.  Then \<open>Merge\<close> succeeds; it puts every buffer of
  \<open>other\<close> into \<open>self.buffers\<close> under its id plus \<open>upper\<close>, keeps the buffers \<open>self\<close>
  had, adds the ids of \<open>other.buffers_with_free_space\<close> shifted by \<open>upper\<close>, adds
  \<open>other.total_segment_count\<close> to \<open>self.total_segment_count\<close>, and leaves \<open>other\<close> with no
  buffers and no ids in \<open>buffers_with_free_space\<close>, its segment size as it was.  Nothing is
  said here about \<open>other.total_segment_count\<close> after the call.
\<close>

theorem Merge_contract:
  assumes "segment_size a = segment_size other"
    and "upper = (if dom (buffers a) = {} then 0 else Max (dom (buffers a)) + 1)"
    and "\<forall>b \<in> dom (buffers a). b + 1 < 2 ^ 64"
    and "\<forall>b \<in> dom (buffers other). b + upper < 2 ^ 64"
    and "\<forall>b \<in> buffers_with_free_space other. b + upper < 2 ^ 64"
    and "total_segment_count a + total_segment_count other < 2 ^ 64"
  shows "\<exists>a' other'. Merge a other = Inr (a', other')
     \<and> (\<forall>buffer_id buf. buffers other buffer_id = Some buf \<longrightarrow> buffers a' (buffer_id + upper) = Some buf)
     \<and> (\<forall>b buf. buffers a b = Some buf \<longrightarrow> buffers a' b = Some buf)
     \<and> dom (buffers a') = dom (buffers a) \<union> (\<lambda>buffer_id. buffer_id + upper) ` dom (buffers other)
     \<and> buffers_with_free_space a' =
           buffers_with_free_space a \<union> (\<lambda>buffer_id. buffer_id + upper) ` buffers_with_free_space other
     \<and> total_segment_count a' = total_segment_count a + total_segment_count other
     \<and> segment_size a' = segment_size a
     \<and> buffers other' = Map.empty \<and> buffers_with_free_space other' = {}
     \<and> segment_size other' = segment_size other"
proof -
  let ?u = "GetUpperBoundBufferId a"
  let ?bufs = "\<lambda>x. if ?u \<le> x \<and> x - ?u \<in> dom (buffers other) then buffers other (x - ?u) else buffers a x"
  let ?a' = "a\<lparr>buffers := ?bufs,
            buffers_with_free_space := buffers_with_free_space a
               \<union> (\<lambda>k. k + ?u) ` buffers_with_free_space other,
            total_segment_count := total_segment_count a + total_segment_count other\<rparr>"
  let ?o' = "other\<lparr>buffers := Map.empty, buffers_with_free_space := {}\<rparr>"
  have u: "?u = upper"
    unfolding assms(2) by (rule GetUpperBoundBufferId_spec[OF assms(3)])
  have m: "Merge a other = Inr (?a', ?o')"
    by (rule Merge_spec[OF assms(1,3) assms(4,5)[folded u] assms(6)])
  have above: "b < ?u" if "b \<in> dom (buffers a)" for b
    using GetUpperBoundBufferId_above[OF assms(3) that] .
  have 1: "\<forall>buffer_id buf. buffers other buffer_id = Some buf \<longrightarrow> ?bufs (buffer_id + ?u) = Some buf"
    by auto
  have 2: "\<forall>b buf. buffers a b = Some buf \<longrightarrow> ?bufs b = Some buf"
    using above by fastforce
  have 3: "dom ?bufs = dom (buffers a) \<union> (\<lambda>buffer_id. buffer_id + ?u) ` dom (buffers other)"
  proof (intro set_eqI iffI)
    fix x assume "x \<in> dom ?bufs"
    then have d: "?bufs x \<noteq> None" by blast
    show "x \<in> dom (buffers a) \<union> (\<lambda>buffer_id. buffer_id + ?u) ` dom (buffers other)"
    proof (cases "?u \<le> x \<and> x - ?u \<in> dom (buffers other)")
      case True
      then have "x = (x - ?u) + ?u" by simp
      then have "x \<in> (\<lambda>buffer_id. buffer_id + ?u) ` dom (buffers other)"
        using True by (intro image_eqI[of _ _ "x - ?u"]) simp_all
      then show ?thesis by simp
    next
      case False
      then have "buffers a x \<noteq> None" using d by (simp split: if_splits)
      then show ?thesis by blast
    qed
  next
    fix x assume "x \<in> dom (buffers a) \<union> (\<lambda>buffer_id. buffer_id + ?u) ` dom (buffers other)"
    then show "x \<in> dom ?bufs"
      by (auto split: if_splits)
  qed
  have b': "buffers ?a' = ?bufs" by simp
  have f1: "\<forall>buffer_id buf. buffers other buffer_id = Some buf \<longrightarrow> buffers ?a' (buffer_id + upper) = Some buf"
    unfolding b' using 1 unfolding u .
  have f2: "\<forall>b buf. buffers a b = Some buf \<longrightarrow> buffers ?a' b = Some buf"
    unfolding b' by (rule 2)
  have f3: "dom (buffers ?a') = dom (buffers a) \<union> (\<lambda>buffer_id. buffer_id + upper) ` dom (buffers other)"
    unfolding b' using 3 unfolding u .
  have f4: "buffers_with_free_space ?a' =
           buffers_with_free_space a \<union> (\<lambda>buffer_id. buffer_id + upper) ` buffers_with_free_space other"
    by (simp add: u)
  have f5: "total_segment_count ?a' = total_segment_count a + total_segment_count other"
    by simp
  have f6: "segment_size ?a' = segment_size a" by simp
  have o1: "buffers ?o' = Map.empty" by simp
  have o2: "buffers_with_free_space ?o' = {}" by simp
  have o3: "segment_size ?o' = segment_size other" by simp
  show ?thesis
    by (intro exI[of _ ?a'] exI[of _ ?o'] conjI) (rule m f1 f2 f3 f4 f5 f6 o1 o2 o3)+
qed

theorem Merge_contract_witness:
  "FixedSizeAllocator_ctor BLOCK_SIZE 8000 = Some (Inr allocator_8000)
   \<and> New allocator_8000 = Inr (one_segment_8000, IndexPointer 0 0)
   \<and> New one_segment_8000 = Inr (two_segments_8000, IndexPointer 0 1)
   \<and> (\<exists>a' other'. Merge two_segments_8000 one_segment_8000 = Inr (a', other')
        \<and> dom (buffers a') = {0, 1}
        \<and> buffers a' 0 = buffers two_segments_8000 0
        \<and> buffers a' 1 = buffers one_segment_8000 0
        \<and> buffers_with_free_space a' = {0, 1}
        \<and> total_segment_count a' = 3
        \<and> buffers other' = Map.empty \<and> buffers_with_free_space other' = {})"
proof -
  let ?S = two_segments_8000 and ?O = one_segment_8000
  note f = segments_8000_fields
  have bs: "\<exists>buf. buffers ?S 0 = Some buf" using f(2) by blast
  have bo: "\<exists>buf. buffers ?O 0 = Some buf" using f(3) by blast
  have "\<exists>a' other'. Merge ?S ?O = Inr (a', other')
     \<and> (\<forall>buffer_id buf. buffers ?O buffer_id = Some buf \<longrightarrow> buffers a' (buffer_id + 1) = Some buf)
     \<and> (\<forall>b buf. buffers ?S b = Some buf \<longrightarrow> buffers a' b = Some buf)
     \<and> dom (buffers a') = dom (buffers ?S) \<union> (\<lambda>buffer_id. buffer_id + 1) ` dom (buffers ?O)
     \<and> buffers_with_free_space a' =
           buffers_with_free_space ?S \<union> (\<lambda>buffer_id. buffer_id + 1) ` buffers_with_free_space ?O
     \<and> total_segment_count a' = total_segment_count ?S + total_segment_count ?O
     \<and> segment_size a' = segment_size ?S
     \<and> buffers other' = Map.empty \<and> buffers_with_free_space other' = {}
     \<and> segment_size other' = segment_size ?O"
    by (rule Merge_contract[of ?S ?O 1]) (simp_all add: f)
  then obtain a' where "\<exists>other'. Merge ?S ?O = Inr (a', other')
     \<and> (\<forall>buffer_id buf. buffers ?O buffer_id = Some buf \<longrightarrow> buffers a' (buffer_id + 1) = Some buf)
     \<and> (\<forall>b buf. buffers ?S b = Some buf \<longrightarrow> buffers a' b = Some buf)
     \<and> dom (buffers a') = dom (buffers ?S) \<union> (\<lambda>buffer_id. buffer_id + 1) ` dom (buffers ?O)
     \<and> buffers_with_free_space a' =
           buffers_with_free_space ?S \<union> (\<lambda>buffer_id. buffer_id + 1) ` buffers_with_free_space ?O
     \<and> total_segment_count a' = total_segment_count ?S + total_segment_count ?O
     \<and> segment_size a' = segment_size ?S
     \<and> buffers other' = Map.empty \<and> buffers_with_free_space other' = {}
     \<and> segment_size other' = segment_size ?O" ..
  then obtain other' where h: "Merge ?S ?O = Inr (a', other')
     \<and> (\<forall>buffer_id buf. buffers ?O buffer_id = Some buf \<longrightarrow> buffers a' (buffer_id + 1) = Some buf)
     \<and> (\<forall>b buf. buffers ?S b = Some buf \<longrightarrow> buffers a' b = Some buf)
     \<and> dom (buffers a') = dom (buffers ?S) \<union> (\<lambda>buffer_id. buffer_id + 1) ` dom (buffers ?O)
     \<and> buffers_with_free_space a' =
           buffers_with_free_space ?S \<union> (\<lambda>buffer_id. buffer_id + 1) ` buffers_with_free_space ?O
     \<and> total_segment_count a' = total_segment_count ?S + total_segment_count ?O
     \<and> segment_size a' = segment_size ?S
     \<and> buffers other' = Map.empty \<and> buffers_with_free_space other' = {}
     \<and> segment_size other' = segment_size ?O" ..
  note c1 = h[THEN conjunct1]
  note r1 = h[THEN conjunct2]
  note c2 = r1[THEN conjunct1]
  note r2 = r1[THEN conjunct2]
  note c3 = r2[THEN conjunct1]
  note r3 = r2[THEN conjunct2]
  note c4 = r3[THEN conjunct1]
  note r4 = r3[THEN conjunct2]
  note c5 = r4[THEN conjunct1]
  note r5 = r4[THEN conjunct2]
  note c6 = r5[THEN conjunct1]
  note r6 = r5[THEN conjunct2]
  note r7 = r6[THEN conjunct2]
  note c8 = r7[THEN conjunct1]
  note r8 = r7[THEN conjunct2]
  note c9 = r8[THEN conjunct1]
  have d: "dom (buffers a') = {0, 1}" using c4 by (auto simp: f)
  have b0: "buffers a' 0 = buffers ?S 0" using c3 bs by auto
  have b1: "buffers a' 1 = buffers ?O 0" using c2 bo by fastforce
  have fr: "buffers_with_free_space a' = {0, 1}" using c5 by (auto simp: f)
  have t: "total_segment_count a' = 3" using c6 by (simp add: f)
  have "\<exists>a' other'. Merge two_segments_8000 one_segment_8000 = Inr (a', other')
        \<and> dom (buffers a') = {0, 1}
        \<and> buffers a' 0 = buffers two_segments_8000 0
        \<and> buffers a' 1 = buffers one_segment_8000 0
        \<and> buffers_with_free_space a' = {0, 1}
        \<and> total_segment_count a' = 3
        \<and> buffers other' = Map.empty \<and> buffers_with_free_space other' = {}"
    by (intro exI[of _ a'] exI[of _ other'] conjI) (rule c1 d b0 b1 fr t c8 c9)+
  then show ?thesis using ctor_8000 New_allocator_8000 New_one_segment_8000 by blast
qed

text \<open>
  The claim as the specification states it fails twice.  \<open>Merge\<close> does not leave \<open>other\<close>
  empty: called with the allocator that holds one segment (the state after the first \<open>New\<close>
  on the allocator of segment size 8000), it leaves it with no buffer but a segment total of 1,
  which is not the freshly constructed allocator.  And the key is \<open>id + upper\<close> only inside
  the range of \<open>idx_t\<close>: with the id \<open>2^64 - 1\<close> in \<open>self\<close> and in \<open>other\<close> the buffer of
  \<open>other\<close> is not stored in \<open>self\<close> at all.
\<close>

theorem Merge_other_not_empty:
  "New allocator_8000 = Inr (one_segment_8000, IndexPointer 0 0)
   \<and> Merge two_segments_8000 one_segment_8000 =
       Inr (merged_8000, one_segment_8000\<lparr>buffers := Map.empty, buffers_with_free_space := {}\<rparr>)
   \<and> total_segment_count (one_segment_8000\<lparr>buffers := Map.empty, buffers_with_free_space := {}\<rparr>) = 1
   \<and> one_segment_8000\<lparr>buffers := Map.empty, buffers_with_free_space := {}\<rparr> \<noteq> allocator_8000
   \<and> Merge (last_id_allocator fresh_buffer) (last_id_allocator (fresh_buffer\<lparr>segment_count := 1\<rparr>)) =
       Inr (last_id_allocator fresh_buffer, largest_segment_allocator)"
proof -
  let ?o' = "one_segment_8000\<lparr>buffers := Map.empty, buffers_with_free_space := {}\<rparr>"
  have t: "total_segment_count ?o' = 1" by (simp add: segments_8000_fields)
  have z: "total_segment_count allocator_8000 = 0" by (simp add: allocator_8000_def)
  have n: "?o' \<noteq> allocator_8000"
  proof
    assume "?o' = allocator_8000"
    then have "total_segment_count ?o' = total_segment_count allocator_8000" by (rule arg_cong)
    then show False using t z by simp
  qed
  show ?thesis
    using New_allocator_8000 Merge_8000 t n Merge_wraps by simp
qed

section \<open>The bit-scan ladder finds the leftmost set bit\<close>

lemma bit_bound: "bit (x :: validity_t) n \<Longrightarrow> n \<le> 64"
  using bit_imp_le_length[of x n] by simp

lemma highest_set_props:
  assumes "x \<noteq> 0"
  shows "bit x (highest_set x)" "\<And>n. bit x n \<Longrightarrow> n \<le> highest_set x"
proof -
  obtain n where n: "bit x n" using nonzero_bit[OF assms] by blast
  show "bit x (highest_set x)"
    unfolding highest_set_def using n bit_bound by (rule GreatestI_nat)
  show "m \<le> highest_set x" if "bit x m" for m
    unfolding highest_set_def using that bit_bound by (rule Greatest_le_nat)
qed

lemma highest_set_eqI:
  assumes "bit x k" "\<And>n. bit x n \<Longrightarrow> n \<le> k"
  shows "highest_set x = k"
  unfolding highest_set_def using assms by (rule Greatest_equality)

lemma highest_set_less: "x \<noteq> 0 \<Longrightarrow> highest_set x < 64"
  using highest_set_props(1)[of x] bit_imp_le_length[of x "highest_set x"] by simp

lemma take_bit_self_if_no_high:
  assumes "drop_bit s x = 0"
  shows "take_bit s x = (x :: validity_t)"
proof (rule bit_eqI)
  fix n
  have "\<not> bit x n" if "s \<le> n"
  proof
    assume "bit x n"
    then have "bit (drop_bit s x) (n - s)" using that by (simp add: bit_simps)
    then show False using assms by simp
  qed
  then show "bit (take_bit s x) n = bit x n" by (auto simp: bit_simps not_le[symmetric])
qed

lemma and_not_BASE:
  assumes "i < 6" "below (2 * SHIFT i) x"
  shows "x AND NOT (BASE i) = 0 \<longleftrightarrow> drop_bit (SHIFT i) x = 0"
proof -
  have e: "bit x n \<and> bit (BASE i) n \<longleftrightarrow> n < SHIFT i \<and> bit x n" for n
  proof -
    have "bit (x AND BASE i) n = bit (take_bit (SHIFT i) x) n"
      by (simp only: and_BASE[OF assms])
    then show ?thesis by (simp add: bit_simps)
  qed
  show ?thesis
  proof
    assume z: "x AND NOT (BASE i) = 0"
    have "\<not> bit (drop_bit (SHIFT i) x) n" for n
    proof
      assume "bit (drop_bit (SHIFT i) x) n"
      then have b: "bit x (n + SHIFT i)" by (simp add: bit_simps add.commute)
      have "\<not> bit (x AND NOT (BASE i)) (n + SHIFT i)" using z by simp
      then have "bit (BASE i) (n + SHIFT i)" using b bit_imp_le_length[OF b] by (simp add: bit_simps)
      then show False using e[of "n + SHIFT i"] b by simp
    qed
    then show "drop_bit (SHIFT i) x = 0" by (simp add: bit_eq_iff)
  next
    assume z: "drop_bit (SHIFT i) x = 0"
    have t: "take_bit (SHIFT i) x = x" by (rule take_bit_self_if_no_high[OF z])
    have "\<not> bit (x AND NOT (BASE i)) n" for n
    proof
      assume "bit (x AND NOT (BASE i)) n"
      then have b: "bit x n" "\<not> bit (BASE i) n" by (simp_all add: bit_simps)
      have "bit (take_bit (SHIFT i) x) n" using b(1) t by simp
      then have "n < SHIFT i" by (simp add: bit_simps)
      then show False using e[of n] b by simp
    qed
    then show "x AND NOT (BASE i) = 0" by (simp add: bit_eq_iff)
  qed
qed

lemma highest_set_drop:
  assumes "drop_bit s x \<noteq> 0"
  shows "highest_set (drop_bit s x) + s = highest_set x"
proof -
  let ?k = "highest_set (drop_bit s x)"
  have k: "bit (drop_bit s x) ?k" "\<And>n. bit (drop_bit s x) n \<Longrightarrow> n \<le> ?k"
    using highest_set_props[OF assms] by blast+
  have "highest_set x = ?k + s"
  proof (rule highest_set_eqI)
    show "bit x (?k + s)" using k(1) by (simp add: bit_simps add.commute)
  next
    fix n assume b: "bit x n"
    show "n \<le> ?k + s"
    proof (cases "s \<le> n")
      case True
      then have "bit (drop_bit s x) (n - s)" using b by (simp add: bit_simps)
      then have "n - s \<le> ?k" by (rule k(2))
      then show ?thesis by simp
    next
      case False
      then show ?thesis by simp
    qed
  qed
  then show ?thesis by simp
qed

lemma leftmost_step_inv:
  assumes "i < 6" "x \<noteq> 0" "below (2 * SHIFT i) x" "leftmost_step i (x, p) = (x', p')"
  shows "x' \<noteq> 0 \<and> below (SHIFT i) x' \<and> p' + highest_set x' = p + highest_set x"
proof (cases "drop_bit (SHIFT i) x = 0")
  case True
  then have "x AND NOT (BASE i) = 0" using and_not_BASE[OF assms(1,3)] by simp
  then have "x' = x AND BASE i" "p' = p"
    using assms(4) by (auto simp: leftmost_step_def)
  then have "x' = take_bit (SHIFT i) x" "p' = p" using and_BASE[OF assms(1,3)] by simp_all
  moreover have "take_bit (SHIFT i) x = x" by (rule take_bit_self_if_no_high[OF True])
  ultimately show ?thesis using assms(2) below_take[of "SHIFT i" x] by simp
next
  case False
  then have "x AND NOT (BASE i) \<noteq> 0" using and_not_BASE[OF assms(1,3)] by simp
  then have "x' = drop_bit (SHIFT i) x" "p' = p + SHIFT i"
    using assms(4) by (auto simp: leftmost_step_def)
  then show ?thesis
    using False highest_set_drop[OF False] below_drop[OF assms(3)] by simp
qed

lemma leftmost_ladder_correct:
  assumes "x \<noteq> 0"
  shows "fst (leftmost_ladder x) \<noteq> 0 \<and> snd (leftmost_ladder x) = highest_set x"
proof -
  obtain x0 p0 where s0: "leftmost_step 0 (x, 0) = (x0, p0)" by (cases "leftmost_step 0 (x, 0)")
  obtain x1 p1 where s1: "leftmost_step 1 (x0, p0) = (x1, p1)" by (cases "leftmost_step 1 (x0, p0)")
  obtain x2 p2 where s2: "leftmost_step 2 (x1, p1) = (x2, p2)" by (cases "leftmost_step 2 (x1, p1)")
  obtain x3 p3 where s3: "leftmost_step 3 (x2, p2) = (x3, p3)" by (cases "leftmost_step 3 (x2, p2)")
  obtain x4 p4 where s4: "leftmost_step 4 (x3, p3) = (x4, p4)" by (cases "leftmost_step 4 (x3, p3)")
  obtain x5 p5 where s5: "leftmost_step 5 (x4, p4) = (x5, p5)" by (cases "leftmost_step 5 (x4, p4)")
  have i0: "x0 \<noteq> 0 \<and> below 32 x0 \<and> p0 + highest_set x0 = highest_set x"
    using leftmost_step_inv[OF _ assms _ s0] below_64 by (simp add: SHIFT_simps)
  have i1: "x1 \<noteq> 0 \<and> below 16 x1 \<and> p1 + highest_set x1 = highest_set x"
    using leftmost_step_inv[OF _ _ _ s1] i0 by (simp add: SHIFT_simps)
  have i2: "x2 \<noteq> 0 \<and> below 8 x2 \<and> p2 + highest_set x2 = highest_set x"
    using leftmost_step_inv[OF _ _ _ s2] i1 by (simp add: SHIFT_simps)
  have i3: "x3 \<noteq> 0 \<and> below 4 x3 \<and> p3 + highest_set x3 = highest_set x"
    using leftmost_step_inv[OF _ _ _ s3] i2 by (simp add: SHIFT_simps)
  have i4: "x4 \<noteq> 0 \<and> below 2 x4 \<and> p4 + highest_set x4 = highest_set x"
    using leftmost_step_inv[OF _ _ _ s4] i3 by (simp add: SHIFT_simps)
  have i5: "x5 \<noteq> 0 \<and> below 1 x5 \<and> p5 + highest_set x5 = highest_set x"
    using leftmost_step_inv[OF _ _ _ s5] i4 by (simp add: SHIFT_simps)
  have "highest_set x5 = 0"
  proof (rule highest_set_eqI)
    obtain n where "bit x5 n" using i5 nonzero_bit by blast
    then show "bit x5 0" using i5 below_1_bit by blast
  next
    fix n assume "bit x5 n"
    then show "n \<le> 0" using i5 below_1_bit by blast
  qed
  then have "p5 = highest_set x" using i5 by simp
  moreover have "leftmost_ladder x = (x5, p5)"
    using s1 by (simp add: leftmost_ladder_def levels s0 s2 s3 s4 s5)
  ultimately show ?thesis using i5 by simp
qed

section \<open>\<open>GetMaxOffset\<close>\<close>

declare max_offset_loop.simps [simp del]

lemma sub32_small: "b \<le> a \<Longrightarrow> a < 2 ^ 32 \<Longrightarrow> sub32 a b = a - b"
  unfolding sub32_def by (rule sub_wrap_small)

lemma entry_all_ones_iff:
  "(x :: validity_t) = - 1 \<longleftrightarrow> (\<forall>j < 64. bit x j)"
proof
  assume "x = - 1"
  then show "\<forall>j < 64. bit x j" by simp
next
  assume a: "\<forall>j < 64. bit x j"
  show "x = - 1"
  proof (rule bit_eqI)
    fix n
    show "bit x n = bit (- 1 :: validity_t) n"
      using a bit_imp_le_length[of x n] by (cases "n < 64") auto
  qed
qed

lemma forced_entry_bit:
  assumes "Suc e \<le> bc" "r < 64" "j < 64"
  shows "bit (if Suc e = bc then data e OR push_bit r (- 1) else data e) j
           \<longleftrightarrow> forced_valid bc r data (64 * e + j)"
proof -
  have fv: "forced_valid bc r data (64 * e + j) \<longleftrightarrow> bit (data e) j \<or> (e = bc - 1 \<and> r \<le> j)"
    using assms(3) by (simp add: forced_valid_def RowIsValid_def)
  show ?thesis
  proof (cases "Suc e = bc")
    case True
    have "bit (data e OR push_bit r (- 1)) j \<longleftrightarrow> bit (data e) j \<or> r \<le> j"
      using assms(3) by (auto simp: bit_simps)
    moreover have "e = bc - 1" using True by simp
    ultimately have "bit (data e OR push_bit r (- 1)) j \<longleftrightarrow> forced_valid bc r data (64 * e + j)"
      using fv by simp
    then show ?thesis by (simp only: if_P[OF True])
  next
    case False
    then have "e \<noteq> bc - 1" using assms(1) by simp
    then have "bit (data e) j \<longleftrightarrow> forced_valid bc r data (64 * e + j)"
      using fv by simp
    then show ?thesis by (simp only: if_not_P[OF False])
  qed
qed

lemma max_offset_loop_Suc:
  "max_offset_loop bc r data (Suc e) m =
     (let entry = (if Suc e = bc then data e OR push_bit r (- 1) else data e)
      in if entry = - 1 then max_offset_loop bc r data e (sub32 m 64)
         else case leftmost_ladder (NOT entry) of (entry_inv, first_valid_bit) \<Rightarrow>
                if entry_inv = 0 then Inl assertion_failed
                else let max_offset' = sub32 m (sub64 64 first_valid_bit)
                     in if RowIsValid data max_offset' then Inl assertion_failed
                        else Inr (uint32 (max_offset' + 1)))"
proof -
  have e8: "(8 :: nat) * 8 = 64" by simp
  show ?thesis
    by (subst max_offset_loop.simps) (simp only: zero_less_Suc if_True diff_Suc_1 e8)
qed

lemma max_offset_loop_found:
  assumes bc: "64 * bc < 2 ^ 32" and r: "r < 64"
    and row: "\<not> forced_valid bc r data row" "row < 64 * i"
    and above: "\<forall>row'. row < row' \<and> row' < 64 * i \<longrightarrow> forced_valid bc r data row'"
    and i: "i \<le> bc"
  shows "max_offset_loop bc r data i (64 * i) = Inr (row + 1)"
  using row(2) above i
proof (induction i)
  case 0
  then show ?case by simp
next
  case (Suc e)
  define entry where "entry = (if Suc e = bc then data e OR push_bit r (- 1) else data e)"
  have bits: "bit entry j \<longleftrightarrow> forced_valid bc r data (64 * e + j)" if "j < 64" for j
    unfolding entry_def by (rule forced_entry_bit[OF Suc.prems(3) r that])
  have unfold: "max_offset_loop bc r data (Suc e) (64 * Suc e) =
     (if entry = - 1 then max_offset_loop bc r data e (sub32 (64 * Suc e) 64)
         else case leftmost_ladder (NOT entry) of (entry_inv, first_valid_bit) \<Rightarrow>
                if entry_inv = 0 then Inl assertion_failed
                else let max_offset' = sub32 (64 * Suc e) (sub64 64 first_valid_bit)
                     in if RowIsValid data max_offset' then Inl assertion_failed
                        else Inr (uint32 (max_offset' + 1)))"
    unfolding entry_def max_offset_loop_Suc Let_def ..
  have i32: "64 * Suc e < 2 ^ 32" using Suc.prems(3) bc by simp
  show ?case
  proof (cases "row < 64 * e")
    case True
    have "\<forall>j < 64. bit entry j"
    proof (intro allI impI)
      fix j :: nat assume j: "j < 64"
      have "row < 64 * e + j \<and> 64 * e + j < 64 * Suc e" using True j by simp
      then have "forced_valid bc r data (64 * e + j)" using Suc.prems(2) by blast
      then show "bit entry j" using bits[OF j] by simp
    qed
    then have ones: "entry = - 1" by (simp only: entry_all_ones_iff)
    have s: "sub32 (64 * Suc e) 64 = 64 * e" using i32 by (simp add: sub32_small)
    have ih: "max_offset_loop bc r data e (64 * e) = Inr (row + 1)"
      by (rule Suc.IH) (use True Suc.prems in auto)
    show ?thesis
      unfolding unfold using ones ih s by simp
  next
    case False
    then have ge: "64 * e \<le> row" by simp
    define k where "k = row - 64 * e"
    have k: "k < 64" "row = 64 * e + k" using ge Suc.prems(1) by (simp_all add: k_def)
    have nk: "\<not> bit entry k" using bits[OF k(1)] row(1) k(2) by simp
    then have ne: "entry \<noteq> - 1" by (metis entry_all_ones_iff k(1))
    have inv_nz: "NOT entry \<noteq> 0"
    proof
      assume "NOT entry = 0"
      then have "\<not> bit (NOT entry) k" by simp
      then show False using nk k(1) by (simp add: bit_simps)
    qed
    obtain x p where l: "leftmost_ladder (NOT entry) = (x, p)" by (cases "leftmost_ladder (NOT entry)")
    have x: "x \<noteq> 0" and p: "p = highest_set (NOT entry)"
      using leftmost_ladder_correct[OF inv_nz] l by simp_all
    have "highest_set (NOT entry) = k"
    proof (rule highest_set_eqI)
      show "bit (NOT entry) k" using nk k(1) by (simp add: bit_simps)
    next
      fix n assume b: "bit (NOT entry) n"
      then have n64: "n < 64" using bit_imp_le_length[of "NOT entry" n] by simp
      show "n \<le> k"
      proof (rule ccontr)
        assume "\<not> n \<le> k"
        then have "row < 64 * e + n \<and> 64 * e + n < 64 * Suc e" using k(2) n64 by simp
        then have "forced_valid bc r data (64 * e + n)" using Suc.prems(2) by blast
        then have "bit entry n" using bits[OF n64] by simp
        then show False using b by (simp add: bit_simps)
      qed
    qed
    then have pk: "p = k" using p by simp
    have s1: "sub64 64 p = 64 - k" using k(1) pk by (simp add: sub64_small)
    have s2: "sub32 (64 * Suc e) (64 - k) = row" using i32 k by (simp add: sub32_small)
    have nv: "\<not> RowIsValid data row" using row(1) by (simp add: forced_valid_def)
    have u: "uint32 (row + 1) = row + 1" using Suc.prems(1) i32 by simp
    show ?thesis
      unfolding unfold l using ne x nv u s1 s2 by (simp add: Let_def)
  qed
qed

lemma max_offset_loop_empty:
  assumes bc: "64 * bc < 2 ^ 32" and r: "r < 64"
    and all: "\<forall>row < 64 * i. forced_valid bc r data row"
    and i: "i \<le> bc"
  shows "max_offset_loop bc r data i (64 * i) = Inl (InternalException ''tried to serialize empty buffer'')"
  using all i
proof (induction i)
  case 0
  then show ?case by (subst max_offset_loop.simps) simp
next
  case (Suc e)
  define entry where "entry = (if Suc e = bc then data e OR push_bit r (- 1) else data e)"
  have bits: "bit entry j \<longleftrightarrow> forced_valid bc r data (64 * e + j)" if "j < 64" for j
    unfolding entry_def by (rule forced_entry_bit[OF Suc.prems(2) r that])
  have unfold: "max_offset_loop bc r data (Suc e) (64 * Suc e) =
     (if entry = - 1 then max_offset_loop bc r data e (sub32 (64 * Suc e) 64)
         else case leftmost_ladder (NOT entry) of (entry_inv, first_valid_bit) \<Rightarrow>
                if entry_inv = 0 then Inl assertion_failed
                else let max_offset' = sub32 (64 * Suc e) (sub64 64 first_valid_bit)
                     in if RowIsValid data max_offset' then Inl assertion_failed
                        else Inr (uint32 (max_offset' + 1)))"
    unfolding entry_def max_offset_loop_Suc Let_def ..
  have i32: "64 * Suc e < 2 ^ 32" using Suc.prems(2) bc by simp
  have "\<forall>j < 64. bit entry j"
  proof (intro allI impI)
    fix j :: nat assume j: "j < 64"
    then have "64 * e + j < 64 * Suc e" by simp
    then have "forced_valid bc r data (64 * e + j)" using Suc.prems(1) by blast
    then show "bit entry j" using bits[OF j] by simp
  qed
  then have ones: "entry = - 1" by (simp only: entry_all_ones_iff)
  have s: "sub32 (64 * Suc e) 64 = 64 * e" using i32 by (simp add: sub32_small)
  have ih: "max_offset_loop bc r data e (64 * e) = Inl (InternalException ''tried to serialize empty buffer'')"
    by (rule Suc.IH) (use Suc.prems in auto)
  show ?case
    unfolding unfold using ones ih s by simp
qed

lemma GetMaxOffset_found:
  assumes bc: "1 \<le> bitmask_count a" "64 * bitmask_count a < 2 ^ 32"
    and row: "\<not> forced_valid (bitmask_count a) (available_segments_per_buffer a mod 64) data row"
      "row < 64 * bitmask_count a"
    and above: "\<forall>row'. row < row' \<and> row' < 64 * bitmask_count a \<longrightarrow>
        forced_valid (bitmask_count a) (available_segments_per_buffer a mod 64) data row'"
  shows "GetMaxOffset a data = Inr (row + 1)"
proof -
  have u: "uint32 (bitmask_count a * 8 * 8) = 64 * bitmask_count a"
    using bc(2) by (simp add: uint32_def)
  have "max_offset_loop (bitmask_count a) (available_segments_per_buffer a mod 64) data
      (bitmask_count a) (64 * bitmask_count a) = Inr (row + 1)"
    by (rule max_offset_loop_found[OF bc(2) _ row above]) simp_all
  then show ?thesis
    using bc(1) u by (simp add: GetMaxOffset_def Let_def)
qed

lemma GetMaxOffset_none:
  assumes bc: "1 \<le> bitmask_count a" "64 * bitmask_count a < 2 ^ 32"
    and all: "\<forall>row < 64 * bitmask_count a.
        forced_valid (bitmask_count a) (available_segments_per_buffer a mod 64) data row"
  shows "GetMaxOffset a data = Inl (InternalException ''tried to serialize empty buffer'')"
proof -
  have u: "uint32 (bitmask_count a * 8 * 8) = 64 * bitmask_count a"
    using bc(2) by (simp add: uint32_def)
  have "max_offset_loop (bitmask_count a) (available_segments_per_buffer a mod 64) data
      (bitmask_count a) (64 * bitmask_count a) = Inl (InternalException ''tried to serialize empty buffer'')"
    by (rule max_offset_loop_empty[OF bc(2) _ all]) simp_all
  then show ?thesis
    using bc(1) u by (simp add: GetMaxOffset_def Let_def)
qed

text \<open>
  When the last entry of the bitmask is the one that holds row
  \<open>available_segments_per_buffer\<close>, the rows \<open>GetMaxOffset\<close> takes as used are the used
  rows of the buffer.
\<close>

lemma forced_valid_regular:
  assumes "bc = M div 64 + 1" "row < 64 * bc"
  shows "forced_valid bc (M mod 64) data row \<longleftrightarrow> RowIsValid data row \<or> M \<le> row"
proof -
  have M: "M = 64 * (M div 64) + M mod 64" by simp
  have R: "row = 64 * (row div 64) + row mod 64" by simp
  have "row div 64 \<le> M div 64" using assms by simp
  have "(row div 64 = bc - 1 \<and> M mod 64 \<le> row mod 64) \<longleftrightarrow> M \<le> row"
  proof
    assume "row div 64 = bc - 1 \<and> M mod 64 \<le> row mod 64"
    then have "row div 64 = M div 64" "M mod 64 \<le> row mod 64" using assms(1) by simp_all
    then show "M \<le> row" using M R by linarith
  next
    assume le: "M \<le> row"
    then have "M div 64 \<le> row div 64" by (rule div_le_mono)
    then have d: "row div 64 = M div 64" using \<open>row div 64 \<le> M div 64\<close> by simp
    then have "M mod 64 \<le> row mod 64" using le M R by linarith
    then show "row div 64 = bc - 1 \<and> M mod 64 \<le> row mod 64" using d assms(1) by simp
  qed
  then show ?thesis by (simp add: forced_valid_def)
qed

lemma GetMaxOffset_regular:
  assumes bc: "bitmask_count a = available_segments_per_buffer a div 64 + 1"
    "64 * bitmask_count a < 2 ^ 32"
  shows "used_rows (available_segments_per_buffer a) data \<noteq> {} \<Longrightarrow>
           GetMaxOffset a data = Inr (Max (used_rows (available_segments_per_buffer a) data) + 1)"
    and "used_rows (available_segments_per_buffer a) data = {} \<Longrightarrow>
           GetMaxOffset a data = Inl (InternalException ''tried to serialize empty buffer'')"
proof -
  let ?M = "available_segments_per_buffer a" and ?bc = "bitmask_count a"
  let ?U = "used_rows ?M data"
  have M: "?M < 64 * ?bc" using bc(1) by (simp add: div_less_iff_less_mult)
  have fv: "forced_valid ?bc (?M mod 64) data row \<longleftrightarrow> RowIsValid data row \<or> ?M \<le> row"
    if "row < 64 * ?bc" for row
    by (rule forced_valid_regular[OF bc(1) that])
  have bc1: "1 \<le> ?bc" using bc(1) by simp
  {
    assume ne: "?U \<noteq> {}"
    let ?row = "Max ?U"
    have "?row \<in> ?U" using ne by (intro Max_in) simp_all
    then have r: "?row < ?M" "\<not> RowIsValid data ?row" by (simp_all add: used_rows_def)
    have r64: "?row < 64 * ?bc" using r(1) M by simp
    have nf: "\<not> forced_valid ?bc (?M mod 64) data ?row" using fv[OF r64] r by simp
    have above: "\<forall>row'. ?row < row' \<and> row' < 64 * ?bc \<longrightarrow> forced_valid ?bc (?M mod 64) data row'"
    proof (intro allI impI)
      fix row' assume a: "?row < row' \<and> row' < 64 * ?bc"
      have "row' \<notin> ?U"
      proof
        assume "row' \<in> ?U"
        then have "row' \<le> ?row" by (intro Max_ge) simp_all
        then show False using a by simp
      qed
      then have "RowIsValid data row' \<or> ?M \<le> row'" by (auto simp: used_rows_def)
      then show "forced_valid ?bc (?M mod 64) data row'" using fv a by simp
    qed
    show "GetMaxOffset a data = Inr (?row + 1)"
      by (rule GetMaxOffset_found[OF bc1 bc(2) nf r64 above])
  }
  {
    assume e: "?U = {}"
    have "\<forall>row < 64 * ?bc. forced_valid ?bc (?M mod 64) data row"
    proof (intro allI impI)
      fix row assume a: "row < 64 * ?bc"
      have "row \<notin> ?U" using e by simp
      then have "RowIsValid data row \<or> ?M \<le> row" by (auto simp: used_rows_def)
      then show "forced_valid ?bc (?M mod 64) data row" using fv a by simp
    qed
    then show "GetMaxOffset a data = Inl (InternalException ''tried to serialize empty buffer'')"
      by (rule GetMaxOffset_none[OF bc1 bc(2)])
  }
qed

text \<open>
  In general, as long as the bitmask has room for more rows than there are segments, the
  offset that \<open>GetMaxOffset\<close> returns for a buffer with a used row lies above every used row.
\<close>

lemma GetMaxOffset_covers:
  assumes M: "available_segments_per_buffer a < 64 * bitmask_count a"
    and bc: "64 * bitmask_count a < 2 ^ 32"
    and ne: "used_rows (available_segments_per_buffer a) data \<noteq> {}"
  shows "\<exists>m. GetMaxOffset a data = Inr m \<and> m \<le> 64 * bitmask_count a
           \<and> (\<forall>row \<in> used_rows (available_segments_per_buffer a) data. row < m)"
proof -
  let ?M = "available_segments_per_buffer a" and ?bc = "bitmask_count a"
  let ?U = "used_rows ?M data"
  let ?D = "{row. row < 64 * ?bc \<and> \<not> forced_valid ?bc (?M mod 64) data row}"
  have bc1: "1 \<le> ?bc" using M by simp
  have sub: "?U \<subseteq> ?D"
  proof
    fix row assume "row \<in> ?U"
    then have r: "row < ?M" "\<not> RowIsValid data row" by (simp_all add: used_rows_def)
    have "\<not> (row div 64 = ?bc - 1 \<and> ?M mod 64 \<le> row mod 64)"
    proof
      assume f: "row div 64 = ?bc - 1 \<and> ?M mod 64 \<le> row mod 64"
      have "?M div 64 < ?bc" using M by (simp add: div_less_iff_less_mult)
      then have "?M div 64 \<le> row div 64" using f by simp
      moreover have "?M = 64 * (?M div 64) + ?M mod 64" "row = 64 * (row div 64) + row mod 64"
        by simp_all
      ultimately have "?M \<le> row" using f by linarith
      then show False using r(1) by simp
    qed
    then show "row \<in> ?D" using r M by (simp add: forced_valid_def)
  qed
  have fin: "finite ?D" by simp
  have neD: "?D \<noteq> {}" using sub ne by blast
  let ?row = "Max ?D"
  have "?row \<in> ?D" using fin neD by (rule Max_in)
  then have r: "?row < 64 * ?bc" "\<not> forced_valid ?bc (?M mod 64) data ?row" by simp_all
  have above: "\<forall>row'. ?row < row' \<and> row' < 64 * ?bc \<longrightarrow> forced_valid ?bc (?M mod 64) data row'"
  proof (intro allI impI)
    fix row' assume a: "?row < row' \<and> row' < 64 * ?bc"
    have "row' \<notin> ?D"
    proof
      assume "row' \<in> ?D"
      then have "row' \<le> ?row" using fin by (intro Max_ge)
      then show False using a by simp
    qed
    then show "forced_valid ?bc (?M mod 64) data row'" using a by simp
  qed
  have g: "GetMaxOffset a data = Inr (?row + 1)"
    by (rule GetMaxOffset_found[OF bc1 bc r(2,1) above])
  have "row < ?row + 1" if "row \<in> ?U" for row
  proof -
    have "row \<in> ?D" using sub that by blast
    then have "row \<le> ?row" using fin by (intro Max_ge)
    then show ?thesis by simp
  qed
  then show ?thesis using g r(1) by auto
qed

lemma forced_valid_8000:
  assumes "95 < row" "row < 128"
  shows "forced_valid 2 32 data row"
proof -
  have d: "row div 64 = 1" using assms by (intro div_nat_eqI) simp_all
  have "row mod 64 = row - 64 * (row div 64)" by (simp only: minus_mult_div_eq_mod)
  then have "row mod 64 = row - 64" using d by simp
  then have "32 \<le> row mod 64" using assms by simp
  then show ?thesis using d by (simp add: forced_valid_def)
qed

lemma GetMaxOffset_allocator_8000:
  assumes "\<forall>row. RowIsValid data row \<longrightarrow> row < 32"
  shows "GetMaxOffset allocator_8000 data = Inr 96"
proof -
  have bc: "bitmask_count allocator_8000 = 2" and M: "available_segments_per_buffer allocator_8000 mod 64 = 32"
    by (simp_all add: allocator_8000_def)
  have n95: "\<not> RowIsValid data 95" using assms by fastforce
  have m95: "(95 :: nat) mod 64 = 31" by simp
  have nf: "\<not> forced_valid 2 32 data 95" using n95 by (simp add: forced_valid_def m95)
  have ab: "\<forall>row'. 95 < row' \<and> row' < 64 * 2 \<longrightarrow> forced_valid 2 32 data row'"
    using forced_valid_8000 by simp
  have "GetMaxOffset allocator_8000 data = Inr (95 + 1)"
  proof (rule GetMaxOffset_found)
    show "1 \<le> bitmask_count allocator_8000" by (simp add: bc)
    show "64 * bitmask_count allocator_8000 < 2 ^ 32" by (simp add: bc)
    show "95 < 64 * bitmask_count allocator_8000" by (simp add: bc)
    show "\<not> forced_valid (bitmask_count allocator_8000)
        (available_segments_per_buffer allocator_8000 mod 64) data 95"
      unfolding bc M by (rule nf)
    show "\<forall>row'. 95 < row' \<and> row' < 64 * bitmask_count allocator_8000 \<longrightarrow>
        forced_valid (bitmask_count allocator_8000)
          (available_segments_per_buffer allocator_8000 mod 64) data row'"
      unfolding bc M by (rule ab)
  qed
  then show ?thesis by simp
qed

lemma Free_one_segment_8000:
  "Free one_segment_8000 (IndexPointer 0 0) =
     Inr (one_buffer allocator_8000 (SetValid (SetInvalid (SetAllValid 32) 0) 0) 0)"
proof -
  have "Free (one_buffer allocator_8000 (SetInvalid (SetAllValid 32) 0) 1) (IndexPointer 0 0) =
      Inr (one_buffer allocator_8000 (SetValid (SetInvalid (SetAllValid 32) 0) 0) (1 - 1))"
    by (rule Free_one_buffer) simp_all
  then show ?thesis by (simp add: one_segment_8000_def)
qed

text \<open>
  Claim C6 at the allocator of segment size 8000 (32 segments per buffer, two bitmask
  entries).  For the buffer that holds one segment, at offset 0 (the state after the first
  \<open>New\<close>), \<open>GetMaxOffset\<close> returns 96 and not 1, and the allocation size that
  \<open>Serialize\<close> computes from it exceeds the block.  For the buffer with no segment in use
  (the state after \<open>Free\<close> of that segment) it returns 96 as well, with no error.
\<close>

theorem GetMaxOffset_8000_overshoots:
  "FixedSizeAllocator_ctor BLOCK_SIZE 8000 = Some (Inr allocator_8000)
   \<and> New allocator_8000 = Inr (one_segment_8000, IndexPointer 0 0)
   \<and> buffers one_segment_8000 0 =
        Some (fresh_buffer\<lparr>validity := SetInvalid (SetAllValid 32) 0, segment_count := 1\<rparr>)
   \<and> used_rows (available_segments_per_buffer allocator_8000) (SetInvalid (SetAllValid 32) 0) = {0}
   \<and> GetMaxOffset allocator_8000 (SetInvalid (SetAllValid 32) 0) = Inr 96
   \<and> BLOCK_SIZE < 96 * segment_size allocator_8000 + bitmask_offset allocator_8000
   \<and> Free one_segment_8000 (IndexPointer 0 0) =
        Inr (one_buffer allocator_8000 (SetValid (SetInvalid (SetAllValid 32) 0) 0) 0)
   \<and> used_rows (available_segments_per_buffer allocator_8000) (SetValid (SetInvalid (SetAllValid 32) 0) 0) = {}
   \<and> GetMaxOffset allocator_8000 (SetValid (SetInvalid (SetAllValid 32) 0) 0) = Inr 96"
proof -
  have M: "available_segments_per_buffer allocator_8000 = 32" by (simp add: allocator_8000_def)
  have b: "buffers one_segment_8000 0 =
        Some (fresh_buffer\<lparr>validity := SetInvalid (SetAllValid 32) 0, segment_count := 1\<rparr>)"
    by (simp add: one_segment_8000_def)
  have u1: "used_rows 32 (SetInvalid (SetAllValid 32) 0) = {0}"
    by (auto simp: used_rows_def)
  have u0: "used_rows 32 (SetValid (SetInvalid (SetAllValid 32) 0) 0) = {}"
    by (auto simp: used_rows_def)
  have g1: "GetMaxOffset allocator_8000 (SetInvalid (SetAllValid 32) 0) = Inr 96"
    by (rule GetMaxOffset_allocator_8000) simp
  have g0: "GetMaxOffset allocator_8000 (SetValid (SetInvalid (SetAllValid 32) 0) 0) = Inr 96"
    by (rule GetMaxOffset_allocator_8000) auto
  have s: "BLOCK_SIZE < 96 * segment_size allocator_8000 + bitmask_offset allocator_8000"
    by (simp add: BLOCK_SIZE_def allocator_8000_def)
  show ?thesis
    unfolding M
    by (intro conjI) (rule ctor_8000 New_allocator_8000 b u1 g1 s Free_one_segment_8000 u0 g0)+
qed

section \<open>\<open>Serialize\<close> followed by \<open>Deserialize\<close>\<close>

lemma serialize_buffers_spec:
  assumes "distinct ids"
    and "\<forall>b \<in> set ids. GetMaxOffset a (validity (the (bufs b))) = Inr (M b)"
  shows "\<exists>bufs' pbm'. serialize_buffers a ids (bufs, pbm) = Inr (bufs', pbm')
     \<and> next_block pbm \<le> next_block pbm'
     \<and> (\<forall>k < next_block pbm. blocks pbm' k = blocks pbm k)
     \<and> (\<forall>b. b \<notin> set ids \<longrightarrow> bufs' b = bufs b)
     \<and> (\<forall>b \<in> set ids. \<exists>bp. next_block pbm \<le> bp
            \<and> bufs' b = Some ((the (bufs b))\<lparr>block_pointer := bp,
                   allocation_size := add64 (mul64 (M b) (segment_size a)) (bitmask_offset a)\<rparr>)
            \<and> blocks pbm' bp = Some (block_prefix (bitmask_offset a) (the (bufs b))
                   (add64 (mul64 (M b) (segment_size a)) (bitmask_offset a))))"
  using assms
proof (induction ids arbitrary: bufs pbm)
  case Nil
  then show ?case by simp
next
  case (Cons b0 ids)
  let ?al = "\<lambda>b. add64 (mul64 (M b) (segment_size a)) (bitmask_offset a)"
  let ?buf1 = "(the (bufs b0))\<lparr>block_pointer := next_block pbm, allocation_size := ?al b0\<rparr>"
  let ?pbm1 = "pbm\<lparr>next_block := next_block pbm + 1,
        blocks := (blocks pbm)(next_block pbm \<mapsto> block_prefix (bitmask_offset a) (the (bufs b0)) (?al b0))\<rparr>"
  let ?bufs1 = "bufs(b0 \<mapsto> ?buf1)"
  have g0: "GetMaxOffset a (validity (the (bufs b0))) = Inr (M b0)" using Cons.prems(2) by simp
  have d: "distinct ids" "b0 \<notin> set ids" using Cons.prems(1) by simp_all
  have step: "serialize_buffers a (b0 # ids) (bufs, pbm) = serialize_buffers a ids (?bufs1, ?pbm1)"
    by (simp add: g0 buffer_Serialize_def Let_def)
  have same: "the (?bufs1 b) = the (bufs b)" if "b \<in> set ids" for b
    using that d(2) by auto
  have pre: "\<forall>b \<in> set ids. GetMaxOffset a (validity (the (?bufs1 b))) = Inr (M b)"
    using Cons.prems(2) same by simp
  from Cons.IH[OF d(1) pre, of ?pbm1]
  obtain bufs' pbm' where r: "serialize_buffers a ids (?bufs1, ?pbm1) = Inr (bufs', pbm')"
    and n: "next_block ?pbm1 \<le> next_block pbm'"
    and k: "\<forall>k < next_block ?pbm1. blocks pbm' k = blocks ?pbm1 k"
    and o: "\<forall>b. b \<notin> set ids \<longrightarrow> bufs' b = ?bufs1 b"
    and i: "\<forall>b \<in> set ids. \<exists>bp. next_block ?pbm1 \<le> bp
            \<and> bufs' b = Some ((the (?bufs1 b))\<lparr>block_pointer := bp, allocation_size := ?al b\<rparr>)
            \<and> blocks pbm' bp = Some (block_prefix (bitmask_offset a) (the (?bufs1 b)) (?al b))"
    by blast
  have n1: "next_block ?pbm1 = next_block pbm + 1" by simp
  have c1: "next_block pbm \<le> next_block pbm'" using n n1 by simp
  have c2: "\<forall>k < next_block pbm. blocks pbm' k = blocks pbm k"
  proof (intro allI impI)
    fix j assume j: "j < next_block pbm"
    then have "blocks pbm' j = blocks ?pbm1 j" using k n1 by simp
    also have "\<dots> = blocks pbm j" using j by simp
    finally show "blocks pbm' j = blocks pbm j" .
  qed
  have c3: "\<forall>b. b \<notin> set (b0 # ids) \<longrightarrow> bufs' b = bufs b"
    using o by simp
  have c4: "\<forall>b \<in> set (b0 # ids). \<exists>bp. next_block pbm \<le> bp
            \<and> bufs' b = Some ((the (bufs b))\<lparr>block_pointer := bp, allocation_size := ?al b\<rparr>)
            \<and> blocks pbm' bp = Some (block_prefix (bitmask_offset a) (the (bufs b)) (?al b))"
  proof
    fix b assume b: "b \<in> set (b0 # ids)"
    show "\<exists>bp. next_block pbm \<le> bp
            \<and> bufs' b = Some ((the (bufs b))\<lparr>block_pointer := bp, allocation_size := ?al b\<rparr>)
            \<and> blocks pbm' bp = Some (block_prefix (bitmask_offset a) (the (bufs b)) (?al b))"
    proof (cases "b = b0")
      case True
      have "bufs' b0 = ?bufs1 b0" using o d(2) by simp
      then have 1: "bufs' b0 = Some ?buf1" by simp
      have "blocks pbm' (next_block pbm) = blocks ?pbm1 (next_block pbm)" using k n1 by simp
      then have 2: "blocks pbm' (next_block pbm) =
          Some (block_prefix (bitmask_offset a) (the (bufs b0)) (?al b0))" by simp
      show ?thesis unfolding True
        by (rule exI[of _ "next_block pbm"]) (use 1 2 in simp)
    next
      case False
      then have bi: "b \<in> set ids" using b by simp
      from i bi obtain bp where bp: "next_block ?pbm1 \<le> bp"
        "bufs' b = Some ((the (?bufs1 b))\<lparr>block_pointer := bp, allocation_size := ?al b\<rparr>)"
        "blocks pbm' bp = Some (block_prefix (bitmask_offset a) (the (?bufs1 b)) (?al b))"
        by blast
      have "next_block pbm \<le> bp" using bp(1) n1 by simp
      then show ?thesis using bp(2,3) same[OF bi] by auto
    qed
  qed
  show ?case
    unfolding step using r c1 c2 c3 c4 by blast
qed

lemma read_free_space_spec:
  "read_free_space (length xs) (xs @ rest) s = Inr (s \<union> set xs, rest)"
  by (induction xs arbitrary: s) simp_all

lemma buffer_entries_Cons:
  "buffer_entries bufs (b # ids) =
     b # block_pointer (the (bufs b)) # segment_count (the (bufs b)) # allocation_size (the (bufs b))
       # buffer_entries bufs ids"
  by (simp add: buffer_entries_def)

lemma read_buffers_spec:
  assumes "distinct ids" "\<forall>b \<in> set ids. m b = None"
    and "t + (\<Sum>b \<leftarrow> ids. segment_count (the (bufs b))) < 2 ^ 64"
  shows "read_buffers disk (length ids) (buffer_entries bufs ids @ rest) (m, t) =
     Inr ((\<lambda>b. if b \<in> set ids
                then Some (restored_buffer disk (segment_count (the (bufs b)))
                             (allocation_size (the (bufs b))) (block_pointer (the (bufs b))))
                else m b,
           t + (\<Sum>b \<leftarrow> ids. segment_count (the (bufs b)))), rest)"
  using assms
proof (induction ids arbitrary: m t)
  case Nil
  then show ?case by (simp add: buffer_entries_def)
next
  case (Cons b0 ids)
  let ?r = "\<lambda>b. restored_buffer disk (segment_count (the (bufs b)))
                             (allocation_size (the (bufs b))) (block_pointer (the (bufs b)))"
  let ?m1 = "map_insert m b0 (?r b0)"
  let ?t1 = "add64 t (segment_count (the (bufs b0)))"
  have m1: "?m1 = m(b0 \<mapsto> ?r b0)" using Cons.prems(2) by (simp add: map_insert_def)
  have t1: "?t1 = t + segment_count (the (bufs b0))"
    using Cons.prems(3) by (intro add64_small) simp
  have d: "distinct ids" "b0 \<notin> set ids" using Cons.prems(1) by simp_all
  have none: "\<forall>b \<in> set ids. ?m1 b = None" using Cons.prems(2) d(2) by (auto simp: m1)
  have bound: "?t1 + (\<Sum>b \<leftarrow> ids. segment_count (the (bufs b))) < 2 ^ 64"
    using Cons.prems(3) by (simp add: t1)
  have "read_buffers disk (length (b0 # ids)) (buffer_entries bufs (b0 # ids) @ rest) (m, t) =
      read_buffers disk (length ids) (buffer_entries bufs ids @ rest) (?m1, ?t1)"
    by (simp add: buffer_entries_Cons)
  also have "\<dots> = Inr ((\<lambda>b. if b \<in> set ids then Some (?r b) else ?m1 b,
           ?t1 + (\<Sum>b \<leftarrow> ids. segment_count (the (bufs b)))), rest)"
    by (rule Cons.IH[OF d(1) none bound])
  also have "(\<lambda>b. if b \<in> set ids then Some (?r b) else ?m1 b) =
      (\<lambda>b. if b \<in> set (b0 # ids) then Some (?r b) else m b)"
    by (auto simp: m1 fun_eq_iff)
  also have "?t1 + (\<Sum>b \<leftarrow> ids. segment_count (the (bufs b))) =
      t + (\<Sum>b \<leftarrow> (b0 # ids). segment_count (the (bufs b)))"
    by (simp add: t1)
  finally show ?case .
qed

lemma restored_buffer_fields:
  assumes "disk bp = Some img"
  shows "segment_count (restored_buffer disk sc al bp) = sc"
    "payload (restored_buffer disk sc al bp) = image_payload img"
  using assms by (simp_all add: restored_buffer_def)

lemma roundtrip_buffers:
  assumes fin: "finite (dom (buffers a))"
    and sub: "buffers_with_free_space a \<subseteq> dom (buffers a)"
    and mo: "\<forall>b \<in> dom (buffers a). GetMaxOffset a (validity (the (buffers a b))) = Inr (M b)"
    and tot: "segment_total (buffers a) < 2 ^ 64"
    and fresh: "buffers f = Map.empty" "buffers_with_free_space f = {}"
  shows "\<exists>a' pbm' w' r. Serialize a pbm w = Inr (a', pbm', w', length w)
     \<and> Deserialize f (blocks pbm') w' (length w) = Inr r
     \<and> segment_size r = segment_size a
     \<and> total_segment_count r = segment_total (buffers a)
     \<and> buffers_with_free_space r = buffers_with_free_space a
     \<and> dom (buffers r) = dom (buffers a)
     \<and> (\<forall>b buf. buffers a b = Some buf \<longrightarrow>
           (\<exists>buf'. buffers r b = Some buf' \<and> segment_count buf' = segment_count buf
              \<and> payload buf' = image_payload (block_prefix (bitmask_offset a) buf
                    (add64 (mul64 (M b) (segment_size a)) (bitmask_offset a)))))"
proof -
  let ?D = "dom (buffers a)"
  let ?ids = "sorted_list_of_set ?D"
  let ?fs = "sorted_list_of_set (buffers_with_free_space a)"
  let ?al = "\<lambda>b. add64 (mul64 (M b) (segment_size a)) (bitmask_offset a)"
  have ids: "distinct ?ids" "set ?ids = ?D" "length ?ids = card ?D" using fin by simp_all
  have finf: "finite (buffers_with_free_space a)" using sub fin by (rule finite_subset)
  have fs: "set ?fs = buffers_with_free_space a" "length ?fs = card (buffers_with_free_space a)"
    using finf by simp_all
  have mo': "\<forall>b \<in> set ?ids. GetMaxOffset a (validity (the (buffers a b))) = Inr (M b)"
    using mo ids(2) by simp
  from serialize_buffers_spec[OF ids(1) mo', of pbm]
  obtain bufs' pbm' where sb: "serialize_buffers a ?ids (buffers a, pbm) = Inr (bufs', pbm')"
    and o: "\<forall>b. b \<notin> set ?ids \<longrightarrow> bufs' b = buffers a b"
    and i: "\<forall>b \<in> set ?ids. \<exists>bp. next_block pbm \<le> bp
            \<and> bufs' b = Some ((the (buffers a b))\<lparr>block_pointer := bp, allocation_size := ?al b\<rparr>)
            \<and> blocks pbm' bp = Some (block_prefix (bitmask_offset a) (the (buffers a b)) (?al b))"
    by blast
  have dom': "dom bufs' = ?D"
  proof (intro set_eqI iffI)
    fix b assume "b \<in> dom bufs'"
    then have n: "bufs' b \<noteq> None" by blast
    show "b \<in> ?D"
    proof (rule ccontr)
      assume "b \<notin> ?D"
      then have "bufs' b = buffers a b" "buffers a b = None" using o ids(2) by auto
      then show False using n by simp
    qed
  next
    fix b assume "b \<in> ?D"
    then have "b \<in> set ?ids" using ids(2) by simp
    then obtain bp where "bufs' b = Some ((the (buffers a b))\<lparr>block_pointer := bp, allocation_size := ?al b\<rparr>)"
      using i by blast
    then show "b \<in> dom bufs'" by blast
  qed
  let ?w' = "((w @ [segment_size a, card (dom bufs'), card (buffers_with_free_space a)])
               @ buffer_entries bufs' (sorted_list_of_set (dom bufs'))) @ ?fs"
  have ser: "Serialize a pbm w = Inr (a\<lparr>buffers := bufs'\<rparr>, pbm', ?w', length w)"
    by (simp add: Serialize_def sb Let_def)
  have w': "drop (length w) ?w' =
      segment_size a # length ?ids # length ?fs # (buffer_entries bufs' ?ids @ ?fs)"
    by (simp add: dom' ids(3) fs(2))
  have sc: "segment_count (the (bufs' b)) = segment_count (the (buffers a b))" if "b \<in> set ?ids" for b
  proof -
    from i that obtain bp where
      "bufs' b = Some ((the (buffers a b))\<lparr>block_pointer := bp, allocation_size := ?al b\<rparr>)" by blast
    then show ?thesis by simp
  qed
  have "(\<Sum>b \<leftarrow> ?ids. segment_count (the (bufs' b))) = (\<Sum>b \<leftarrow> ?ids. segment_count (the (buffers a b)))"
    using sc by (intro arg_cong[where f = sum_list] map_cong refl) simp
  also have "\<dots> = (\<Sum>b \<in> set ?ids. segment_count (the (buffers a b)))"
    using ids(1) by (rule sum_list_distinct_conv_sum_set)
  also have "\<dots> = segment_total (buffers a)" by (simp add: segment_total_def ids(2))
  finally have sum: "(\<Sum>b \<leftarrow> ?ids. segment_count (the (bufs' b))) = segment_total (buffers a)" .
  let ?r = "\<lambda>b. restored_buffer (blocks pbm') (segment_count (the (bufs' b)))
                             (allocation_size (the (bufs' b))) (block_pointer (the (bufs' b)))"
  let ?m = "\<lambda>b. if b \<in> set ?ids then Some (?r b) else (Map.empty :: nat \<rightharpoonup> FixedSizeBuffer) b"
  have rb: "read_buffers (blocks pbm') (length ?ids) (buffer_entries bufs' ?ids @ ?fs) (Map.empty, 0) =
      Inr ((?m, 0 + (\<Sum>b \<leftarrow> ?ids. segment_count (the (bufs' b)))), ?fs)"
    by (rule read_buffers_spec[OF ids(1)]) (use tot sum in simp_all)
  have rb': "read_buffers (blocks pbm') (length ?ids) (buffer_entries bufs' ?ids @ ?fs) (Map.empty, 0) =
      Inr ((?m, segment_total (buffers a)), ?fs)"
    using rb sum by simp
  have rf: "read_free_space (length ?fs) ?fs {} = Inr (buffers_with_free_space a, [])"
    using read_free_space_spec[of ?fs "[]" "{}"] fs(1) by simp
  let ?res = "f\<lparr>segment_size := segment_size a, total_segment_count := segment_total (buffers a),
                 buffers := ?m, buffers_with_free_space := buffers_with_free_space a\<rparr>"
  have des: "Deserialize f (blocks pbm') ?w' (length w) = Inr ?res"
    unfolding Deserialize_def w' by (simp add: fresh rb'[unfolded ids(3)] rf[unfolded fs(2)])
  have d: "dom (buffers ?res) = ?D" using ids(2) by (auto split: if_splits)
  have bufs: "\<forall>b buf. buffers a b = Some buf \<longrightarrow>
           (\<exists>buf'. buffers ?res b = Some buf' \<and> segment_count buf' = segment_count buf
              \<and> payload buf' = image_payload (block_prefix (bitmask_offset a) buf (?al b)))"
  proof (intro allI impI)
    fix b buf assume b: "buffers a b = Some buf"
    then have bi: "b \<in> set ?ids" using ids(2) by auto
    from i bi obtain bp where bp:
      "bufs' b = Some ((the (buffers a b))\<lparr>block_pointer := bp, allocation_size := ?al b\<rparr>)"
      "blocks pbm' bp = Some (block_prefix (bitmask_offset a) (the (buffers a b)) (?al b))" by blast
    have b': "the (bufs' b) = buf\<lparr>block_pointer := bp, allocation_size := ?al b\<rparr>"
      using bp(1) b by simp
    have img: "blocks pbm' (block_pointer (the (bufs' b))) = Some (block_prefix (bitmask_offset a) buf (?al b))"
      using bp(2) b by (simp add: b')
    have 1: "buffers ?res b = Some (?r b)" using bi by simp
    have 2: "segment_count (?r b) = segment_count buf"
      using restored_buffer_fields(1)[of "blocks pbm'" "block_pointer (the (bufs' b))", OF img]
      by (simp add: b')
    have 3: "payload (?r b) = image_payload (block_prefix (bitmask_offset a) buf (?al b))"
      by (rule restored_buffer_fields(2)[of "blocks pbm'" "block_pointer (the (bufs' b))", OF img])
    show "\<exists>buf'. buffers ?res b = Some buf' \<and> segment_count buf' = segment_count buf
              \<and> payload buf' = image_payload (block_prefix (bitmask_offset a) buf (?al b))"
      using 1 2 3 by blast
  qed
  have s1: "segment_size ?res = segment_size a" by simp
  have s2: "total_segment_count ?res = segment_total (buffers a)" by simp
  have s3: "buffers_with_free_space ?res = buffers_with_free_space a" by simp
  show ?thesis
    by (intro exI[of _ "a\<lparr>buffers := bufs'\<rparr>"] exI[of _ pbm'] exI[of _ ?w'] exI[of _ ?res] conjI)
       (rule ser des s1 s2 s3 d bufs)+
qed

lemma with_payload_fields [simp]:
  "segment_size (with_payload a f) = segment_size a"
  "bitmask_count (with_payload a f) = bitmask_count a"
  "bitmask_offset (with_payload a f) = bitmask_offset a"
  "available_segments_per_buffer (with_payload a f) = available_segments_per_buffer a"
  "total_segment_count (with_payload a f) = total_segment_count a"
  "buffers_with_free_space (with_payload a f) = buffers_with_free_space a"
  "buffers (with_payload a f) b = map_option (\<lambda>buffer. buffer\<lparr>payload := f b\<rparr>) (buffers a b)"
  "dom (buffers (with_payload a f)) = dom (buffers a)"
  by (auto simp: with_payload_def dom_def)

lemma GetMaxOffset_with_payload [simp]:
  "GetMaxOffset (with_payload a f) data = GetMaxOffset a data"
  by (simp add: GetMaxOffset_def)

lemma segment_total_with_payload [simp]:
  "segment_total (buffers (with_payload a f)) = segment_total (buffers a)"
proof -
  have "segment_count (the (buffers (with_payload a f) b)) = segment_count (the (buffers a b))"
    if "b \<in> dom (buffers a)" for b
    using that by auto
  then show ?thesis unfolding segment_total_def by simp
qed

lemma segment_total_bound:
  assumes fin: "finite (dom bufs)" and ids: "\<forall>b \<in> dom bufs. b < 2 ^ 32"
    and sc: "\<forall>b buf. bufs b = Some buf \<longrightarrow> segment_count buf \<le> n"
  shows "segment_total bufs \<le> 2 ^ 32 * n"
proof -
  have "dom bufs \<subseteq> {..<2 ^ 32}" using ids by auto
  then have "card (dom bufs) \<le> card {..<(2 :: nat) ^ 32}" by (intro card_mono) simp_all
  then have c: "card (dom bufs) \<le> 2 ^ 32" by simp
  have "segment_count (the (bufs b)) \<le> n" if "b \<in> dom bufs" for b
    using sc that by auto
  then have "segment_total bufs \<le> card (dom bufs) * n"
    unfolding segment_total_def using sum_bounded_above[of "dom bufs" "\<lambda>b. segment_count (the (bufs b))" n]
    by simp
  also have "\<dots> \<le> 2 ^ 32 * n" using c by (rule mult_le_mono1)
  finally show ?thesis .
qed

text \<open>
  Claim C5, as the code has it.  Let the constructor return \<open>a0\<close> for the segment size \<open>s\<close>,
  with a bitmask whose last entry is the one that holds row
  \<open>available_segments_per_buffer\<close> and with segments that fit the block together with the
  bitmask.  Let \<open>a\<close> be a state reached from \<open>a0\<close> by \<open>New\<close> and \<open>Free\<close> (on live
  pointers) in which every buffer holds at least one segment, and let the segments hold any
  bytes \<open>f\<close>.  Then \<open>Serialize\<close> succeeds, and \<open>Deserialize\<close> of its result into the fresh
  allocator \<open>a0\<close> succeeds and yields an allocator with the segment size, the total segment
  count and the free-space set of \<open>a\<close>, with the buffer ids of \<open>a\<close> and the segment count
  of \<open>a\<close> for each buffer, and with the bytes of \<open>a\<close> in every live segment.
\<close>

theorem Serialize_Deserialize:
  assumes ctor: "FixedSizeAllocator_ctor BLOCK_SIZE s = Some (Inr a0)"
    and regular: "bitmask_count a0 = available_segments_per_buffer a0 div 64 + 1"
    and fit: "bitmask_offset a0 + available_segments_per_buffer a0 * s \<le> BLOCK_SIZE"
    and reach: "reachable a0 a"
    and nonempty: "\<forall>b buf. buffers a b = Some buf \<longrightarrow> 0 < segment_count buf"
  shows "\<exists>a' pbm' w' r. Serialize (with_payload a f) pbm w = Inr (a', pbm', w', length w)
     \<and> Deserialize a0 (blocks pbm') w' (length w) = Inr r
     \<and> segment_size r = segment_size a
     \<and> total_segment_count r = total_segment_count a
     \<and> buffers_with_free_space r = buffers_with_free_space a
     \<and> dom (buffers r) = dom (buffers a)
     \<and> (\<forall>b buf. buffers a b = Some buf \<longrightarrow>
           (\<exists>buf'. buffers r b = Some buf' \<and> segment_count buf' = segment_count buf))
     \<and> (\<forall>ptr i. live a ptr \<and> i < segment_size a \<longrightarrow> Get r ptr i = Get (with_payload a f) ptr i)"
proof -
  let ?c = "with_payload a f"
  let ?A = "available_segments_per_buffer a"
  have B: "9 \<le> BLOCK_SIZE" "BLOCK_SIZE \<le> 2 ^ 32" "BLOCK_SIZE = 262144" by (simp_all add: BLOCK_SIZE_def)
  note p = ctor_Inr_props[OF ctor B(1,2)]
  have s0: "segment_size a0 = s" and A0: "available_segments_per_buffer a0 \<le> BLOCK_SIZE + 64"
    and e0: "buffers a0 = Map.empty" "buffers_with_free_space a0 = {}"
    using p by simp_all
  have wf0: "wf_allocator a0" by (rule wf_ctor[OF ctor])
  have wf: "wf_allocator a" by (rule reachable_wf[OF reach wf0])
  note cfg = reachable_config[OF reach wf0]
  have cA: "?A = available_segments_per_buffer a0" and cb: "bitmask_count a = bitmask_count a0"
    and cs: "segment_size a = s" and co: "bitmask_offset a = bitmask_offset a0"
    using cfg s0 by simp_all
  have fin: "finite (dom (buffers a))" and ids: "\<forall>b \<in> dom (buffers a). b < 2 ^ 32"
    and fs: "buffers_with_free_space a =
         {b. \<exists>buf. buffers a b = Some buf \<and> segment_count buf < ?A}"
    and wb: "\<forall>b buf. buffers a b = Some buf \<longrightarrow> wf_buffer ?A buf"
    and tt: "total_segment_count a = segment_total (buffers a)"
    using wf by (simp_all add: wf_allocator_def)
  have reg: "bitmask_count a = ?A div 64 + 1" using regular cA cb by simp
  have A18: "?A \<le> 262208" using A0 cA B(3) by simp
  have "?A div 64 \<le> 262208 div 64" using A18 by (rule div_le_mono)
  then have bc: "bitmask_count a \<le> 4098" using reg by simp
  then have bc32: "64 * bitmask_count a < 2 ^ 32" by simp
  have fit': "bitmask_offset a + ?A * s \<le> 262144" using fit cA co B(3) by simp
  define M where "M b = Max (used_rows ?A (validity (the (buffers a b)))) + 1" for b
  have used: "used_rows ?A (validity buf) \<noteq> {}" if "buffers a b = Some buf" for b buf
  proof -
    have "card (used_rows ?A (validity buf)) = segment_count buf"
      using wb that by (simp add: wf_buffer_def)
    moreover have "0 < segment_count buf" using nonempty that by blast
    ultimately show ?thesis by auto
  qed
  have gm: "GetMaxOffset a (validity buf) = Inr (M b)" if "buffers a b = Some buf" for b buf
    using GetMaxOffset_regular(1)[OF reg bc32 used[OF that]] that by (simp add: M_def)
  have Mle: "M b \<le> ?A" if "buffers a b = Some buf" for b buf
  proof -
    have "Max (used_rows ?A (validity buf)) \<in> used_rows ?A (validity buf)"
      using used[OF that] by (intro Max_in) simp_all
    then have "Max (used_rows ?A (validity buf)) < ?A" by (simp add: used_rows_def)
    then show ?thesis using that by (simp add: M_def)
  qed
  have mo: "\<forall>b \<in> dom (buffers ?c). GetMaxOffset ?c (validity (the (buffers ?c b))) = Inr (M b)"
  proof
    fix b assume "b \<in> dom (buffers ?c)"
    then obtain buf where b: "buffers a b = Some buf" by auto
    then have "validity (the (buffers ?c b)) = validity buf" by simp
    then show "GetMaxOffset ?c (validity (the (buffers ?c b))) = Inr (M b)"
      using gm[OF b] by simp
  qed
  have scle: "\<forall>b buf. buffers a b = Some buf \<longrightarrow> segment_count buf \<le> 262208"
  proof (intro allI impI)
    fix b buf assume "buffers a b = Some buf"
    then have "segment_count buf \<le> ?A" using wb wf_buffer_sc_le by blast
    then show "segment_count buf \<le> 262208" using A18 by simp
  qed
  have "segment_total (buffers a) \<le> 2 ^ 32 * 262208"
    by (rule segment_total_bound[OF fin ids scle])
  then have tot: "segment_total (buffers ?c) < 2 ^ 64" by simp
  have sub: "buffers_with_free_space ?c \<subseteq> dom (buffers ?c)" using fs by auto
  have fin': "finite (dom (buffers ?c))" using fin by simp
  from roundtrip_buffers[OF fin' sub mo tot e0, of pbm w]
  obtain a' pbm' w' r where ser: "Serialize ?c pbm w = Inr (a', pbm', w', length w)"
    and des: "Deserialize a0 (blocks pbm') w' (length w) = Inr r"
    and r1: "segment_size r = segment_size ?c"
    and r2: "total_segment_count r = segment_total (buffers ?c)"
    and r3: "buffers_with_free_space r = buffers_with_free_space ?c"
    and r4: "dom (buffers r) = dom (buffers ?c)"
    and r5: "\<forall>b buf. buffers ?c b = Some buf \<longrightarrow>
           (\<exists>buf'. buffers r b = Some buf' \<and> segment_count buf' = segment_count buf
              \<and> payload buf' = image_payload (block_prefix (bitmask_offset ?c) buf
                    (add64 (mul64 (M b) (segment_size ?c)) (bitmask_offset ?c))))"
    by blast
  have c1: "segment_size r = segment_size a" using r1 by simp
  have c2: "total_segment_count r = total_segment_count a" using r2 tt by simp
  have c3: "buffers_with_free_space r = buffers_with_free_space a" using r3 by simp
  have c4: "dom (buffers r) = dom (buffers a)" using r4 by simp
  have restored: "\<exists>buf'. buffers r b = Some buf' \<and> segment_count buf' = segment_count buf
       \<and> payload buf' = image_payload (block_prefix (bitmask_offset a) (buf\<lparr>payload := f b\<rparr>)
                    (M b * s + bitmask_offset a))"
    if b: "buffers a b = Some buf" for b buf
  proof -
    have bc': "buffers ?c b = Some (buf\<lparr>payload := f b\<rparr>)" using b by simp
    have "M b * s \<le> ?A * s" using Mle[OF b] by (rule mult_le_mono1)
    then have le: "M b * s + bitmask_offset a \<le> 262144" using fit' by linarith
    then have "M b * s < 2 ^ 64" by simp
    then have m: "mul64 (M b) s = M b * s" by (rule mul64_small)
    have "M b * s + bitmask_offset a < 2 ^ 64" using le by simp
    then have al: "add64 (mul64 (M b) s) (bitmask_offset a) = M b * s + bitmask_offset a"
      unfolding m by (rule add64_small)
    from r5 bc' obtain buf' where "buffers r b = Some buf'"
      "segment_count buf' = segment_count (buf\<lparr>payload := f b\<rparr>)"
      "payload buf' = image_payload (block_prefix (bitmask_offset ?c) (buf\<lparr>payload := f b\<rparr>)
                    (add64 (mul64 (M b) (segment_size ?c)) (bitmask_offset ?c)))"
      by blast
    then show ?thesis using al cs by auto
  qed
  have c5: "\<forall>b buf. buffers a b = Some buf \<longrightarrow>
           (\<exists>buf'. buffers r b = Some buf' \<and> segment_count buf' = segment_count buf)"
    using restored by blast
  have c6: "\<forall>ptr i. live a ptr \<and> i < segment_size a \<longrightarrow> Get r ptr i = Get ?c ptr i"
  proof (intro allI impI)
    fix ptr i assume h: "live a ptr \<and> i < segment_size a"
    let ?b = "GetBufferId ptr" and ?off = "PointerGetOffset ptr"
    from h obtain buf where b: "buffers a ?b = Some buf" and off: "?off < ?A"
      "\<not> RowIsValid (validity buf) ?off"
      by (auto simp: live_def split: option.splits)
    have i: "i < s" using h cs by simp
    have "?off \<in> used_rows ?A (validity buf)" using off by (simp add: used_rows_def)
    then have "?off \<le> Max (used_rows ?A (validity buf))" by (intro Max_ge) simp_all
    then have "?off + 1 \<le> M ?b" using b by (simp add: M_def)
    then have "(?off + 1) * s \<le> M ?b * s" by (rule mult_le_mono1)
    moreover have "(?off + 1) * s = ?off * s + s" by simp
    ultimately have in_prefix: "bitmask_offset a + (?off * s + i) < M ?b * s + bitmask_offset a"
      using i by linarith
    from restored[OF b] obtain buf' where r: "buffers r ?b = Some buf'"
      "payload buf' = image_payload (block_prefix (bitmask_offset a) (buf\<lparr>payload := f ?b\<rparr>)
                    (M ?b * s + bitmask_offset a))" by blast
    have "Get r ptr i = payload buf' (?off * s + i)" using r(1) c1 cs by (simp add: Get_def)
    also have "\<dots> = f ?b (?off * s + i)"
      unfolding r(2) using in_prefix by (simp add: block_prefix_def)
    also have "\<dots> = Get ?c ptr i" using b cs by (simp add: Get_def)
    finally show "Get r ptr i = Get ?c ptr i" .
  qed
  show ?thesis
    by (intro exI[of _ a'] exI[of _ pbm'] exI[of _ w'] exI[of _ r] conjI)
       (rule ser des c1 c2 c3 c4 c5 c6)+
qed

lemma ctor_87378: "FixedSizeAllocator_ctor BLOCK_SIZE 87378 = Some (Inr allocator_87378)"
  by (simp add: FixedSizeAllocator_ctor_def BLOCK_SIZE_def segments_loop.simps
      add64_def sub64_def mul64_def Let_def allocator_87378_def)

lemma New_allocator_87378: "New allocator_87378 = Inr (one_segment_87378, IndexPointer 0 0)"
proof -
  have "New allocator_87378 =
      Inr (one_buffer allocator_87378 (SetInvalid (SetAllValid (available_segments_per_buffer allocator_87378)) 0) 1,
           IndexPointer 0 0)"
    by (rule New_one_buffer_first) (simp_all add: allocator_87378_def)
  then show ?thesis by (simp add: one_segment_87378_def) (simp add: allocator_87378_def)
qed

lemma Free_one_segment_87378:
  "Free one_segment_87378 (IndexPointer 0 0) = Inr no_segment_87378"
proof -
  have "Free (one_buffer allocator_87378 (SetInvalid (SetAllValid 3) 0) 1) (IndexPointer 0 0) =
      Inr (one_buffer allocator_87378 (SetValid (SetInvalid (SetAllValid 3) 0) 0) (1 - 1))"
    by (rule Free_one_buffer) simp_all
  then show ?thesis by (simp add: one_segment_87378_def no_segment_87378_def)
qed

lemma live_one_segment_87378: "live one_segment_87378 (IndexPointer 0 0)"
  using IndexPointer_fields[of 0 0]
  by (simp add: live_def one_segment_87378_def) (simp add: allocator_87378_def)

theorem Serialize_Deserialize_witness:
  "FixedSizeAllocator_ctor BLOCK_SIZE 87378 = Some (Inr allocator_87378)
   \<and> New allocator_87378 = Inr (one_segment_87378, IndexPointer 0 0)
   \<and> live one_segment_87378 (IndexPointer 0 0)
   \<and> (\<exists>a' pbm' w' r.
         Serialize (with_payload one_segment_87378 (\<lambda>b i. word_of_nat i))
             \<lparr>next_block = 0, blocks = Map.empty\<rparr> [] = Inr (a', pbm', w', 0)
       \<and> Deserialize allocator_87378 (blocks pbm') w' 0 = Inr r
       \<and> segment_size r = 87378 \<and> total_segment_count r = 1
       \<and> buffers_with_free_space r = {0} \<and> dom (buffers r) = {0}
       \<and> Get r (IndexPointer 0 0) 5 = 5)"
proof -
  let ?a = one_segment_87378 and ?f = "\<lambda>(b :: nat) (i :: nat). (word_of_nat i :: 8 word)"
  let ?pbm = "\<lparr>next_block = 0, blocks = Map.empty\<rparr>"
  have reg: "bitmask_count allocator_87378 = available_segments_per_buffer allocator_87378 div 64 + 1"
    by (simp add: allocator_87378_def)
  have fit: "bitmask_offset allocator_87378 + available_segments_per_buffer allocator_87378 * 87378 \<le> BLOCK_SIZE"
    by (simp add: allocator_87378_def BLOCK_SIZE_def)
  have reach: "reachable allocator_87378 ?a"
    by (rule reachable.new[OF reachable.start New_allocator_87378])
  have ne: "\<forall>b buf. buffers ?a b = Some buf \<longrightarrow> 0 < segment_count buf"
    by (auto simp: one_segment_87378_def split: if_splits)
  have f: "segment_size ?a = 87378" "total_segment_count ?a = 1" "buffers_with_free_space ?a = {0}"
    "dom (buffers ?a) = {0}"
    by (simp_all add: one_segment_87378_def) (simp_all add: one_buffer_def allocator_87378_def)
  have g: "Get (with_payload ?a ?f) (IndexPointer 0 0) 5 = 5"
    using IndexPointer_fields[of 0 0] by (simp add: Get_def one_segment_87378_def)
  from Serialize_Deserialize[OF ctor_87378 reg fit reach ne, of ?f ?pbm "[]"]
  obtain a' pbm' w' r where h: "Serialize (with_payload ?a ?f) ?pbm [] = Inr (a', pbm', w', length ([] :: nat list))"
    "Deserialize allocator_87378 (blocks pbm') w' (length ([] :: nat list)) = Inr r"
    "segment_size r = segment_size ?a"
    "total_segment_count r = total_segment_count ?a"
    "buffers_with_free_space r = buffers_with_free_space ?a"
    "dom (buffers r) = dom (buffers ?a)"
    "\<forall>ptr i. live ?a ptr \<and> i < segment_size ?a \<longrightarrow> Get r ptr i = Get (with_payload ?a ?f) ptr i"
    by blast
  have "Get r (IndexPointer 0 0) 5 = Get (with_payload ?a ?f) (IndexPointer 0 0) 5"
    using h(7) live_one_segment_87378 f(1) by simp
  then have g': "Get r (IndexPointer 0 0) 5 = 5" using g by simp
  have "\<exists>a' pbm' w' r.
         Serialize (with_payload ?a ?f) ?pbm [] = Inr (a', pbm', w', 0)
       \<and> Deserialize allocator_87378 (blocks pbm') w' 0 = Inr r
       \<and> segment_size r = 87378 \<and> total_segment_count r = 1
       \<and> buffers_with_free_space r = {0} \<and> dom (buffers r) = {0}
       \<and> Get r (IndexPointer 0 0) 5 = 5"
    using h(1-6) g' f by (intro exI[of _ a'] exI[of _ pbm'] exI[of _ w'] exI[of _ r]) simp
  then show ?thesis
    using ctor_87378 New_allocator_87378 live_one_segment_87378 by blast
qed

text \<open>
  The claim as the specification states it fails in the state after \<open>New\<close> and \<open>Free\<close> of
  the pointer it returned: the allocator has one buffer, with no segment in use, and
  \<open>Serialize\<close> raises the error of \<open>GetMaxOffset\<close>.
\<close>

theorem Serialize_empty_buffer_fails:
  "FixedSizeAllocator_ctor BLOCK_SIZE 87378 = Some (Inr allocator_87378)
   \<and> New allocator_87378 = Inr (one_segment_87378, IndexPointer 0 0)
   \<and> Free one_segment_87378 (IndexPointer 0 0) = Inr no_segment_87378
   \<and> Serialize no_segment_87378 \<lparr>next_block = 0, blocks = Map.empty\<rparr> [] =
       Inl (InternalException ''tried to serialize empty buffer'')"
proof -
  have reg: "bitmask_count no_segment_87378 = available_segments_per_buffer no_segment_87378 div 64 + 1"
    "64 * bitmask_count no_segment_87378 < 2 ^ 32"
    by (simp_all add: no_segment_87378_def) (simp_all add: allocator_87378_def)
  have A: "available_segments_per_buffer no_segment_87378 = 3"
    by (simp add: no_segment_87378_def) (simp add: allocator_87378_def)
  have u: "used_rows (available_segments_per_buffer no_segment_87378)
      (SetValid (SetInvalid (SetAllValid 3) 0) 0) = {}"
    unfolding A by (auto simp: used_rows_def)
  have g: "GetMaxOffset no_segment_87378 (SetValid (SetInvalid (SetAllValid 3) 0) 0) =
      Inl (InternalException ''tried to serialize empty buffer'')"
    by (rule GetMaxOffset_regular(2)[OF reg u])
  have d: "dom (buffers no_segment_87378) = {0}" by (simp add: no_segment_87378_def)
  have v: "validity (the (buffers no_segment_87378 0)) = SetValid (SetInvalid (SetAllValid 3) 0) 0"
    by (simp add: no_segment_87378_def)
  have "Serialize no_segment_87378 \<lparr>next_block = 0, blocks = Map.empty\<rparr> [] =
       Inl (InternalException ''tried to serialize empty buffer'')"
    by (simp add: Serialize_def d v g)
  then show ?thesis
    using ctor_87378 New_allocator_87378 Free_one_segment_87378 by simp
qed

end
